theory Spec2Isabelle
  imports Complex_Main
begin

section \<open>Values, items and rules\<close>

text \<open>
  The engine of \<^verbatim>\<open>app.py\<close> works on Python dictionaries decoded from JSON. The fields
  it reads (\<^verbatim>\<open>hash\<close>, \<^verbatim>\<open>id\<close>, \<^verbatim>\<open>numeroprocessocommascara\<close>) and the values of
  rule parameters are taken to be \<^verbatim>\<open>None\<close>, an integer or a string. On these three
  kinds Python's \<^verbatim>\<open>==\<close> is structural equality, so a Python \<^verbatim>\<open>set\<close> of them is a
  HOL set. Floats and booleans, which \<^verbatim>\<open>==\<close> identifies with the integers of the same
  value, and lists and dictionaries as field values, which cannot enter a set, are left
  out. A dictionary is a map from keys to values.
\<close>

datatype jval = JNull | JNum int | JStr string

type_synonym item = "string \<Rightarrow> jval option"

type_synonym params = "string \<Rightarrow> jval option"

text \<open>\<^verbatim>\<open>d.get(k)\<close> and \<^verbatim>\<open>d.get(k, default)\<close>.\<close>

definition py_get :: "(string \<Rightarrow> jval option) \<Rightarrow> string \<Rightarrow> jval" where
  "py_get d k = (case d k of None \<Rightarrow> JNull | Some v \<Rightarrow> v)"

definition py_get_default :: "(string \<Rightarrow> jval option) \<Rightarrow> string \<Rightarrow> jval \<Rightarrow> jval" where
  "py_get_default d k dflt = (case d k of None \<Rightarrow> dflt | Some v \<Rightarrow> v)"

text \<open>Python truthiness, as used by \<^verbatim>\<open>if pub_hash\<close> and \<^verbatim>\<open>not pub_hash\<close>.\<close>

fun truthy :: "jval \<Rightarrow> bool" where
  "truthy JNull = False"
| "truthy (JNum n) = (n \<noteq> 0)"
| "truthy (JStr s) = (s \<noteq> [])"

text \<open>\<^verbatim>\<open>str()\<close> of a value, as an f-string renders it.\<close>

definition digit_char :: "nat \<Rightarrow> char" where
  "digit_char d = ''0123456789'' ! d"

fun digits :: "nat \<Rightarrow> string" where
  "digits n = (if n < 10 then [digit_char n] else digits (n div 10) @ [digit_char (n mod 10)])"

declare digits.simps [simp del]

definition str_int :: "int \<Rightarrow> string" where
  "str_int i = (if i < 0 then CHR ''-'' # digits (nat (- i)) else digits (nat i))"

fun py_str :: "jval \<Rightarrow> string" where
  "py_str JNull = ''None''"
| "py_str (JNum i) = str_int i"
| "py_str (JStr s) = s"

datatype RuleType = INCLUDE | EXCLUDE

datatype RuleOperator = AND | OR

record SearchRule =
  name :: string
  rule_type :: RuleType
  operator :: RuleOperator
  enabled :: bool
  parameters :: params

text \<open>
  \<^verbatim>\<open>SearchRule.__post_init__\<close>: the dictionary comprehension keeps the entries with
  \<^verbatim>\<open>v is not None and v != ""\<close>.
\<close>

definition post_init :: "SearchRule \<Rightarrow> SearchRule" where
  "post_init r =
     r\<lparr>parameters :=
         (\<lambda>k. case parameters r k of
                None \<Rightarrow> None
              | Some v \<Rightarrow> if v \<noteq> JNull \<and> v \<noteq> JStr [] then Some v else None)\<rparr>"

text \<open>The dataclass constructor: the generated \<^verbatim>\<open>__init__\<close> stores the fields and calls
  \<^verbatim>\<open>__post_init__\<close>.\<close>

definition new_SearchRule ::
  "string \<Rightarrow> RuleType \<Rightarrow> RuleOperator \<Rightarrow> bool \<Rightarrow> params \<Rightarrow> SearchRule" where
  "new_SearchRule nm rt ope en ps =
     post_init \<lparr>name = nm, rule_type = rt, operator = ope, enabled = en, parameters = ps\<rparr>"

section \<open>Deduplication\<close>

text \<open>
  \<^verbatim>\<open>remove_duplicates\<close>: one pass over the publications with the set \<^verbatim>\<open>seen_hashes\<close>
  and the list \<^verbatim>\<open>unique_publications\<close>. The composite of a publication without a
  (truthy) hash is the f-string \<^verbatim>\<open>f"{id}_{numeroprocessocommascara}"\<close>.
\<close>

definition unique_id :: "item \<Rightarrow> string" where
  "unique_id pub =
     py_str (py_get_default pub ''id'' (JStr [])) @ ''_'' @
     py_str (py_get_default pub ''numeroprocessocommascara'' (JStr []))"

fun remove_duplicates_loop :: "jval set \<Rightarrow> item list \<Rightarrow> item list \<Rightarrow> item list" where
  "remove_duplicates_loop seen_hashes unique_publications [] = unique_publications"
| "remove_duplicates_loop seen_hashes unique_publications (pub # publications) =
     (let pub_hash = py_get pub ''hash'' in
      if truthy pub_hash \<and> pub_hash \<notin> seen_hashes then
        remove_duplicates_loop (insert pub_hash seen_hashes) (unique_publications @ [pub])
          publications
      else if \<not> truthy pub_hash then
        (if JStr (unique_id pub) \<notin> seen_hashes then
           remove_duplicates_loop (insert (JStr (unique_id pub)) seen_hashes)
             (unique_publications @ [pub]) publications
         else remove_duplicates_loop seen_hashes unique_publications publications)
      else remove_duplicates_loop seen_hashes unique_publications publications)"

definition remove_duplicates :: "item list \<Rightarrow> item list" where
  "remove_duplicates publications = remove_duplicates_loop {} [] publications"

text \<open>The value under which \<^verbatim>\<open>remove_duplicates\<close> records a publication in
  \<^verbatim>\<open>seen_hashes\<close>: its hash when that is truthy, its composite string otherwise.\<close>

definition dedup_key :: "item \<Rightarrow> jval" where
  "dedup_key pub =
     (if truthy (py_get pub ''hash'') then py_get pub ''hash'' else JStr (unique_id pub))"

section \<open>The key of the specification\<close>

text \<open>
  The identity of an item in the words of the specification, for comparison with the keys
  the code computes: the content hash when it is present and non-empty, and otherwise
  the pair of record id and case number.
\<close>

datatype identity = HashKey jval | PairKey "jval option" "jval option"

definition identity_key :: "item \<Rightarrow> identity" where
  "identity_key x =
     (case x ''hash'' of
        Some h \<Rightarrow>
          if h \<noteq> JNull \<and> h \<noteq> JStr [] then HashKey h
          else PairKey (x ''id'') (x ''numeroprocessocommascara'')
      | None \<Rightarrow> PairKey (x ''id'') (x ''numeroprocessocommascara''))"

section \<open>The paginated query\<close>

text \<open>
  What the outside world sees is recorded as a trace of events, in the order the code
  performs them: a call of the progress callback, a \<^verbatim>\<open>requests.get\<close> with its query
  parameters (the base URL and the timeout of 30 are the same in every call), a
  \<^verbatim>\<open>time.sleep\<close> with its duration, and a \<^verbatim>\<open>st.error\<close> with its message.
\<close>

datatype event = Progress string | Get params | Sleep rat | StError string

text \<open>
  An element of a page as the code stores it in \<^verbatim>\<open>publications\<close>: a dictionary, or a
  JSON value that is not one (the code does not look at the elements while it fetches).
\<close>

datatype entry = is_Dict: Dict item | NotDict jval

text \<open>
  One answer of the transport. \<^verbatim>\<open>requests.get\<close> either raises (timeout, connection
  error; the string is \<^verbatim>\<open>str(e)\<close>) or returns a response with a status code. The body
  is only read on status 200. \<open>JsonError\<close> stands for an exception inside the
  \<^verbatim>\<open>try\<close> while the body is read: \<^verbatim>\<open>response.json()\<close> on a body that does not
  decode, \<^verbatim>\<open>dados.get\<close> on a decoded value that is not an object, or
  \<^verbatim>\<open>publications.extend\<close> on an \<^verbatim>\<open>items\<close> value that cannot be iterated.
  \<open>Dados\<close> carries the elements that \<^verbatim>\<open>publications.extend(items)\<close> appends
  (\<open>None\<close>: the entry is absent or null).
\<close>

datatype body = JsonError string | Dados "entry list option"

datatype http_result = Raised string | Response int body

text \<open>The transport is a script: the answers it gives, one per request, in order.\<close>

type_synonym net = "http_result list"

text \<open>
  How a call ends: it returns a value, it raises an exception that nothing catches
  (\<^verbatim>\<open>.get\<close> on a publication that is not a dictionary), or it is still waiting for
  an answer when the script of the transport is used up.
\<close>

datatype error = AttributeError

datatype 'a outcome = Returns 'a | Raises error | Waiting

text \<open>Strings of the source with letters outside ASCII, as their UTF-8 bytes.\<close>

definition str_Pagina :: string where
  "str_Pagina = ''P'' @ [char_of (195 :: nat), char_of (161 :: nat)] @ ''gina''"

definition str_requisicao :: string where
  "str_requisicao =
     ''requisi'' @ [char_of (195 :: nat), char_of (167 :: nat), char_of (195 :: nat),
       char_of (163 :: nat)] @ ''o''"

definition str_inclusoes :: string where
  "str_inclusoes = ''inclus'' @ [char_of (195 :: nat), char_of (181 :: nat)] @ ''es''"

definition str_exclusoes :: string where
  "str_exclusoes = ''exclus'' @ [char_of (195 :: nat), char_of (181 :: nat)] @ ''es''"

text \<open>
  \<^verbatim>\<open>search_params\<close> is a copy of \<^verbatim>\<open>params\<close> updated with the page size and the page
  number; only its \<^verbatim>\<open>pagina\<close> entry changes afterwards, so the dictionary is a function
  of \<^verbatim>\<open>params\<close> and the page counter.
\<close>

definition search_params :: "params \<Rightarrow> int \<Rightarrow> params" where
  "search_params ps pagina = ps(''itensPorPagina'' \<mapsto> JNum 50, ''pagina'' \<mapsto> JNum pagina)"

definition rule_name_of :: "params \<Rightarrow> string" where
  "rule_name_of ps = py_str (py_get_default ps ''_rule_name'' (JStr ''Busca''))"

text \<open>The head of every iteration: the progress message, when a callback was given, and
  the request.\<close>

definition page_events :: "bool \<Rightarrow> params \<Rightarrow> int \<Rightarrow> event list" where
  "page_events cb ps pagina =
     (if cb then
        [Progress (''Executando '' @ rule_name_of ps @ '' - '' @ str_Pagina @ '' '' @
           str_int pagina)]
      else []) @
     [Get (search_params ps pagina)]"

definition wait_events :: "bool \<Rightarrow> event list" where
  "wait_events cb =
     (if cb then [Progress ''Rate limit atingido. Aguardando...''] else []) @ [Sleep 10]"

text \<open>
  The \<^verbatim>\<open>while True\<close> loop of \<^verbatim>\<open>search_with_params\<close>. Each iteration takes one answer
  of the transport. When the script is used up the loop has sent its next request and
  waits.
\<close>

fun search_loop ::
  "bool \<Rightarrow> params \<Rightarrow> int \<Rightarrow> entry list \<Rightarrow> event list \<Rightarrow> net \<Rightarrow>
   entry list outcome \<times> event list \<times> net" where
  "search_loop cb ps pagina publications trace [] =
     (Waiting, trace @ page_events cb ps pagina, [])"
| "search_loop cb ps pagina publications trace (r # rest) =
     (let trace1 = trace @ page_events cb ps pagina in
      case r of
        Raised e \<Rightarrow>
          (Returns publications,
           trace1 @ [StError (''Erro na '' @ str_requisicao @ '' '' @ rule_name_of ps @ '': '' @ e)],
           rest)
      | Response status_code b \<Rightarrow>
          if status_code = 200 then
            (case b of
               JsonError e \<Rightarrow>
                 (Returns publications,
                  trace1 @ [StError (''Erro na '' @ str_requisicao @ '' '' @ rule_name_of ps @
                    '': '' @ e)],
                  rest)
             | Dados d \<Rightarrow>
                 (let items = (case d of None \<Rightarrow> [] | Some xs \<Rightarrow> xs) in
                  if items = [] then (Returns publications, trace1, rest)
                  else search_loop cb ps (pagina + 1) (publications @ items)
                         (trace1 @ [Sleep (1 / 2)]) rest))
          else if status_code = 429 then
            search_loop cb ps pagina publications (trace1 @ wait_events cb) rest
          else
            (Returns publications,
             trace1 @ [StError (''Erro na busca '' @ rule_name_of ps @ '': '' @
               str_int status_code)],
             rest))"

definition search_with_params ::
  "bool \<Rightarrow> params \<Rightarrow> net \<Rightarrow> entry list outcome \<times> event list \<times> net" where
  "search_with_params cb ps nt = search_loop cb ps 1 [] [] nt"

section \<open>Rule execution\<close>

text \<open>The key of the And-intersection and of the exclusion filter:
  \<^verbatim>\<open>pub.get('hash', pub.get('id', ''))\<close>.\<close>

definition hash_or_id :: "item \<Rightarrow> jval" where
  "hash_or_id pub = py_get_default pub ''hash'' (py_get_default pub ''id'' (JStr []))"

text \<open>
  A comprehension that calls \<^verbatim>\<open>pub.get\<close> on every publication of a list, and
  \<^verbatim>\<open>remove_duplicates\<close>, raise \<^verbatim>\<open>AttributeError\<close> at the first publication that is
  not a dictionary, before anything is returned or recorded; \<open>dicts\<close> gives the
  dictionaries of a list that has no other element.
\<close>

fun dicts :: "entry list \<Rightarrow> item list option" where
  "dicts [] = Some []"
| "dicts (Dict d # es) = (case dicts es of None \<Rightarrow> None | Some ds \<Rightarrow> Some (d # ds))"
| "dicts (NotDict v # es) = None"

text \<open>How one rule's publications enter the two accumulators (the body of the loop of
  \<^verbatim>\<open>execute_rules\<close> after the search).\<close>

definition accumulate ::
  "SearchRule \<Rightarrow> entry list \<Rightarrow> entry list \<times> entry list \<Rightarrow>
   error + entry list \<times> entry list" where
  "accumulate rule publications acc =
     (case acc of (include_publications, exclude_publications) \<Rightarrow>
        (case rule_type rule of
           INCLUDE \<Rightarrow>
             (case operator rule of
                OR \<Rightarrow> Inr (include_publications @ publications, exclude_publications)
              | AND \<Rightarrow>
                  if include_publications = [] then Inr (publications, exclude_publications)
                  else
                    (case dicts include_publications of
                       None \<Rightarrow> Inl AttributeError
                     | Some include_dicts \<Rightarrow>
                         (case dicts publications of
                            None \<Rightarrow> Inl AttributeError
                          | Some publication_dicts \<Rightarrow>
                              (let include_hashes = hash_or_id ` set include_dicts;
                                   publications_hashes = hash_or_id ` set publication_dicts;
                                   common_hashes = include_hashes \<inter> publications_hashes
                               in Inr (map Dict
                                         (filter (\<lambda>pub. hash_or_id pub \<in> common_hashes)
                                            include_dicts),
                                       exclude_publications)))))
         | EXCLUDE \<Rightarrow> Inr (include_publications, exclude_publications @ publications)))"

text \<open>\<^verbatim>\<open>rule_params\<close>: a copy of the rule's parameters, tagged with the rule's name.\<close>

definition rule_params :: "SearchRule \<Rightarrow> params" where
  "rule_params rule = (parameters rule)(''_rule_name'' \<mapsto> JStr (name rule))"

definition rule_events :: "bool \<Rightarrow> SearchRule \<Rightarrow> event list" where
  "rule_events cb rule = (if cb then [Progress (''Executando regra: '' @ name rule)] else [])"

text \<open>The \<^verbatim>\<open>for rule in rules\<close> loop, threading the accumulators, the trace and the
  transport.\<close>

fun run_rules ::
  "bool \<Rightarrow> SearchRule list \<Rightarrow> entry list \<times> entry list \<Rightarrow> event list \<Rightarrow> net \<Rightarrow>
   (entry list \<times> entry list) outcome \<times> event list \<times> net" where
  "run_rules cb [] acc trace nt = (Returns acc, trace, nt)"
| "run_rules cb (rule # rules) acc trace nt =
     (if \<not> enabled rule then run_rules cb rules acc trace nt
      else
        (let trace1 = trace @ rule_events cb rule in
         case search_with_params cb (rule_params rule) nt of
           (Returns publications, evs, nt') \<Rightarrow>
             (case accumulate rule publications acc of
                Inl e \<Rightarrow> (Raises e, trace1 @ evs, nt')
              | Inr acc' \<Rightarrow> run_rules cb rules acc' (trace1 @ evs) nt')
         | (Raises e, evs, nt') \<Rightarrow> (Raises e, trace1 @ evs, nt')
         | (Waiting, evs, nt') \<Rightarrow> (Waiting, trace1 @ evs, nt')))"

definition apply_exclusions :: "item list \<Rightarrow> item list \<Rightarrow> item list" where
  "apply_exclusions include_publications exclude_publications =
     (let exclude_hashes = hash_or_id ` set exclude_publications
      in filter (\<lambda>pub. hash_or_id pub \<notin> exclude_hashes) include_publications)"

text \<open>The part of \<^verbatim>\<open>execute_rules\<close> after the loop: deduplication of the inclusions,
  then the exclusions.\<close>

definition finish ::
  "bool \<Rightarrow> entry list \<times> entry list \<Rightarrow> item list outcome \<times> event list" where
  "finish cb acc =
     (case acc of (include_publications, exclude_publications) \<Rightarrow>
        (let trace1 =
               (if cb then [Progress (''Removendo duplicatas das '' @ str_inclusoes @ ''...'')]
                else [])
         in case dicts include_publications of
              None \<Rightarrow> (Raises AttributeError, trace1)
            | Some include_dicts \<Rightarrow>
                (let include_unique = remove_duplicates include_dicts in
                 if exclude_publications \<noteq> [] then
                   (let trace2 = trace1 @
                          (if cb then [Progress (''Aplicando '' @ str_exclusoes @ ''...'')]
                           else [])
                    in case dicts exclude_publications of
                         None \<Rightarrow> (Raises AttributeError, trace2)
                       | Some exclude_dicts \<Rightarrow>
                           (Returns (apply_exclusions include_unique exclude_dicts), trace2))
                 else (Returns include_unique, trace1))))"

definition finish_run ::
  "bool \<Rightarrow> (entry list \<times> entry list) outcome \<times> event list \<times> net \<Rightarrow>
   item list outcome \<times> event list \<times> net" where
  "finish_run cb run =
     (case run of
        (Returns acc, trace, nt') \<Rightarrow>
          (case finish cb acc of (result, evs) \<Rightarrow> (result, trace @ evs, nt'))
      | (Raises e, trace, nt') \<Rightarrow> (Raises e, trace, nt')
      | (Waiting, trace, nt') \<Rightarrow> (Waiting, trace, nt'))"

definition execute_rules ::
  "bool \<Rightarrow> SearchRule list \<Rightarrow> net \<Rightarrow> item list outcome \<times> event list \<times> net" where
  "execute_rules cb rules nt = finish_run cb (run_rules cb rules ([], []) [] nt)"

section \<open>Vocabulary for the properties\<close>

text \<open>The query parameters of the requests of a trace, in order.\<close>

fun requests_of :: "event list \<Rightarrow> params list" where
  "requests_of [] = []"
| "requests_of (Get q # es) = q # requests_of es"
| "requests_of (e # es) = requests_of es"

text \<open>The answers that take the loop to one of its two \<^verbatim>\<open>st.error\<close> calls: an
  exception of the request or while the body is read, or a status other than 200 and
  429.\<close>

fun failure :: "http_result \<Rightarrow> bool" where
  "failure (Raised e) = True"
| "failure (Response status_code b) =
     (if status_code = 200 then (case b of JsonError e \<Rightarrow> True | Dados d \<Rightarrow> False)
      else status_code \<noteq> 429)"

text \<open>The message of the \<^verbatim>\<open>st.error\<close> call for such an answer, for the rule name
  \<open>rn\<close>.\<close>

fun error_message :: "string \<Rightarrow> http_result \<Rightarrow> string" where
  "error_message rn (Raised e) = ''Erro na '' @ str_requisicao @ '' '' @ rn @ '': '' @ e"
| "error_message rn (Response status_code b) =
     (if status_code = 200 then
        (case b of JsonError e \<Rightarrow> ''Erro na '' @ str_requisicao @ '' '' @ rn @ '': '' @ e
         | Dados d \<Rightarrow> [])
      else ''Erro na busca '' @ rn @ '': '' @ str_int status_code)"

text \<open>The answers after which the loop asks again: a rate limit, or a page with
  elements.\<close>

fun continues :: "http_result \<Rightarrow> bool" where
  "continues (Raised e) = False"
| "continues (Response status_code b) =
     (if status_code = 200 then
        (case b of JsonError e \<Rightarrow> False | Dados d \<Rightarrow> d \<noteq> None \<and> d \<noteq> Some [])
      else status_code = 429)"

text \<open>The elements of the pages among some answers, in order.\<close>

fun fetched :: "net \<Rightarrow> entry list" where
  "fetched [] = []"
| "fetched (Response status_code (Dados (Some xs)) # rs) =
     (if status_code = 200 then xs @ fetched rs else fetched rs)"
| "fetched (r # rs) = fetched rs"

text \<open>The page counter after some answers that let the loop continue, and the trace of
  the loop over them.\<close>

fun page_after :: "int \<Rightarrow> net \<Rightarrow> int" where
  "page_after pagina [] = pagina"
| "page_after pagina (Response status_code b # rs) =
     (if status_code = 429 then page_after pagina rs else page_after (pagina + 1) rs)"
| "page_after pagina (r # rs) = page_after (pagina + 1) rs"

fun continue_trace :: "bool \<Rightarrow> params \<Rightarrow> int \<Rightarrow> net \<Rightarrow> event list" where
  "continue_trace cb ps pagina [] = []"
| "continue_trace cb ps pagina (Response status_code b # rs) =
     page_events cb ps pagina @
     (if status_code = 429 then wait_events cb @ continue_trace cb ps pagina rs
      else [Sleep (1 / 2)] @ continue_trace cb ps (pagina + 1) rs)"
| "continue_trace cb ps pagina (r # rs) =
     page_events cb ps pagina @ [Sleep (1 / 2)] @ continue_trace cb ps (pagina + 1) rs"

text \<open>The trace of \<open>n\<close> successful non-empty pages starting at page \<open>pagina\<close>: for each
  page the head of the iteration and the courtesy sleep.\<close>

definition page_trace :: "bool \<Rightarrow> params \<Rightarrow> int \<Rightarrow> nat \<Rightarrow> event list" where
  "page_trace cb ps pagina n =
     concat (map (\<lambda>i. page_events cb ps (pagina + int i) @ [Sleep (1 / 2)]) [0..<n])"

text \<open>A sequence of page numbers as the loop can ask for them from page \<open>pagina\<close> on:
  each request is for the page of the one before, or for the next page.\<close>

fun page_walk :: "int \<Rightarrow> int list \<Rightarrow> bool" where
  "page_walk pagina [] = True"
| "page_walk pagina (n # ns) = (n = pagina \<and> (page_walk pagina ns \<or> page_walk (pagina + 1) ns))"

section \<open>Example data\<close>

definition pub_A :: item where
  "pub_A = [''hash'' \<mapsto> JStr ''hA'', ''id'' \<mapsto> JNum 1]"

definition pub_A2 :: item where
  "pub_A2 = [''hash'' \<mapsto> JStr ''hA'', ''id'' \<mapsto> JNum 9]"

definition pub_B :: item where
  "pub_B = [''hash'' \<mapsto> JStr ''hB'', ''id'' \<mapsto> JNum 2]"

definition pub_C :: item where
  "pub_C = [''hash'' \<mapsto> JStr ''hC'', ''id'' \<mapsto> JNum 3]"

definition pub_X :: item where
  "pub_X = [''id'' \<mapsto> JNum 7, ''numeroprocessocommascara'' \<mapsto> JStr ''0001'']"

definition pub_X2 :: item where
  "pub_X2 = [''id'' \<mapsto> JNum 7, ''numeroprocessocommascara'' \<mapsto> JStr ''0001'',
     ''texto'' \<mapsto> JStr ''outro'']"

definition pub_Y :: item where
  "pub_Y = [''id'' \<mapsto> JNum 7, ''numeroprocessocommascara'' \<mapsto> JStr ''0002'']"

definition pub_Z :: item where
  "pub_Z = [''id'' \<mapsto> JNum 8, ''numeroprocessocommascara'' \<mapsto> JStr ''0002'']"

definition pub_H :: item where
  "pub_H = [''hash'' \<mapsto> JStr ''7_0001'', ''id'' \<mapsto> JNum 5]"

definition pub_S :: item where
  "pub_S = [''id'' \<mapsto> JStr ''7'', ''numeroprocessocommascara'' \<mapsto> JStr ''0001'']"

definition params_ex :: params where
  "params_ex = [''nomeParte'' \<mapsto> JStr ''Darwin'']"

definition rule_R1 :: SearchRule where
  "rule_R1 = new_SearchRule ''R1'' INCLUDE OR True [''nomeParte'' \<mapsto> JStr ''Darwin'']"

definition rule_R2 :: SearchRule where
  "rule_R2 = new_SearchRule ''R2'' INCLUDE OR True [''nomeParte'' \<mapsto> JStr ''Multivix'']"

definition rule_X1 :: SearchRule where
  "rule_X1 = new_SearchRule ''X1'' EXCLUDE OR True [''numeroOab'' \<mapsto> JStr ''14072'']"

definition rule_A1 :: SearchRule where
  "rule_A1 = new_SearchRule ''A1'' INCLUDE AND True [''nomeParte'' \<mapsto> JStr ''Darwin'']"

definition rule_A2 :: SearchRule where
  "rule_A2 = new_SearchRule ''A2'' INCLUDE AND True [''numeroOab'' \<mapsto> JStr ''8773'']"

section \<open>Properties of the deduplication\<close>

lemma loop_step:
  "remove_duplicates_loop seen uniq (pub # pubs) =
     (if dedup_key pub \<in> seen then remove_duplicates_loop seen uniq pubs
      else remove_duplicates_loop (insert (dedup_key pub) seen) (uniq @ [pub]) pubs)"
  by (simp add: dedup_key_def Let_def)

lemma less_Suc_all: "(\<forall>j<Suc i. P j) \<longleftrightarrow> P 0 \<and> (\<forall>j<i. P (Suc j))"
  by (metis less_Suc_eq_0_disj Suc_less_eq zero_less_Suc)

text \<open>The loop appends to \<open>uniq\<close> the publications at the positions whose key is neither
  in \<open>seen\<close> nor the key of an earlier position.\<close>

lemma loop_index:
  "remove_duplicates_loop seen uniq xs =
     uniq @ map (\<lambda>i. xs ! i)
       (filter (\<lambda>i. dedup_key (xs ! i) \<notin> seen \<and>
                  (\<forall>j<i. dedup_key (xs ! j) \<noteq> dedup_key (xs ! i)))
          [0..<length xs])"
proof (induction xs arbitrary: seen uniq)
  case Nil
  show ?case by simp
next
  case (Cons x xs)
  let ?P = "\<lambda>s ys i. dedup_key (ys ! i) \<notin> s \<and>
              (\<forall>j<i. dedup_key (ys ! j) \<noteq> dedup_key (ys ! i))"
  have upt: "[0..<length (x # xs)] = 0 # map Suc [0..<length xs]"
    by (simp add: upt_conv_Cons map_Suc_upt del: upt_Suc)
  have shift: "?P seen (x # xs) (Suc i) \<longleftrightarrow> ?P (insert (dedup_key x) seen) xs i" for i
    by (auto simp: less_Suc_all)
  have tail: "map (\<lambda>i. (x # xs) ! i) (filter (?P seen (x # xs)) (map Suc [0..<length xs])) =
      map (\<lambda>i. xs ! i) (filter (?P (insert (dedup_key x) seen) xs) [0..<length xs])"
    unfolding filter_map map_map comp_def shift by simp
  show ?case
  proof (cases "dedup_key x \<in> seen")
    case True
    then have same: "insert (dedup_key x) seen = seen" by auto
    from True have head: "\<not> ?P seen (x # xs) 0" by simp
    show ?thesis
      unfolding loop_step upt using True head tail Cons.IH [of seen uniq]
      by (simp add: same del: upt_Suc)
  next
    case False
    then have head: "?P seen (x # xs) 0" by simp
    show ?thesis
      unfolding loop_step upt
      using False head tail Cons.IH [of "insert (dedup_key x) seen" "uniq @ [x]"]
      by (simp del: upt_Suc)
  qed
qed

lemma loop_distinct:
  "dedup_key ` set uniq \<subseteq> seen \<Longrightarrow> distinct (map dedup_key uniq) \<Longrightarrow>
   distinct (map dedup_key (remove_duplicates_loop seen uniq xs))"
proof (induction xs arbitrary: seen uniq)
  case Nil
  then show ?case by simp
next
  case (Cons x xs)
  show ?case
  proof (cases "dedup_key x \<in> seen")
    case True
    with Cons show ?thesis by (simp only: loop_step if_True)
  next
    case False
    have "dedup_key ` set (uniq @ [x]) \<subseteq> insert (dedup_key x) seen"
      using Cons.prems(1) by auto
    moreover have "distinct (map dedup_key (uniq @ [x]))"
      using Cons.prems False by auto
    ultimately show ?thesis
      using False Cons.IH by (simp only: loop_step if_False)
  qed
qed

lemma loop_keys:
  "dedup_key ` set (remove_duplicates_loop seen uniq xs) =
   dedup_key ` set uniq \<union> (dedup_key ` set xs - seen)"
proof (induction xs arbitrary: seen uniq)
  case Nil
  show ?case by simp
next
  case (Cons x xs)
  show ?case
  proof (cases "dedup_key x \<in> seen")
    case True
    then show ?thesis
      using Cons.IH [of seen uniq] unfolding loop_step by auto
  next
    case False
    then show ?thesis
      using Cons.IH [of "insert (dedup_key x) seen" "uniq @ [x]"]
      unfolding loop_step by auto
  qed
qed

text \<open>On publications with pairwise different keys, none of them seen, the loop keeps
  everything.\<close>

lemma loop_fresh:
  "distinct (map dedup_key ys) \<Longrightarrow> dedup_key ` set ys \<inter> seen = {} \<Longrightarrow>
   remove_duplicates_loop seen uniq ys = uniq @ ys"
proof (induction ys arbitrary: seen uniq)
  case Nil
  show ?case by simp
next
  case (Cons y ys)
  from Cons.prems have notin: "dedup_key y \<notin> seen" by auto
  from Cons.prems have "distinct (map dedup_key ys)" by simp
  moreover from Cons.prems have "dedup_key ` set ys \<inter> insert (dedup_key y) seen = {}"
    by auto
  ultimately have
    "remove_duplicates_loop (insert (dedup_key y) seen) (uniq @ [y]) ys = (uniq @ [y]) @ ys"
    by (rule Cons.IH)
  with notin show ?case
    by (simp only: loop_step if_False append_assoc append_Cons append_Nil)
qed

lemma remove_duplicates_distinct: "distinct (map dedup_key (remove_duplicates xs))"
  unfolding remove_duplicates_def by (rule loop_distinct) simp_all

text \<open>
  Claim C7, as amended. \<^verbatim>\<open>remove_duplicates\<close> is stable for the key it records in
  \<^verbatim>\<open>seen_hashes\<close>: the hash of a publication when that is present and truthy, and
  otherwise the string made of its \<^verbatim>\<open>id\<close>, an underscore and its
  \<^verbatim>\<open>numeroprocessocommascara\<close> (empty when absent). The output is the input restricted
  to the positions that are the first occurrence of their key, in the input's order; so
  of two publications with equal keys only the earlier one survives, the keys of the
  output are pairwise different, and every key of the input is still there.
\<close>

theorem remove_duplicates_stable:
  "remove_duplicates xs =
     map (\<lambda>i. xs ! i)
       (filter (\<lambda>i. \<forall>j<i. dedup_key (xs ! j) \<noteq> dedup_key (xs ! i)) [0..<length xs]) \<and>
   distinct (map dedup_key (remove_duplicates xs)) \<and>
   dedup_key ` set (remove_duplicates xs) = dedup_key ` set xs \<and>
   dedup_key x =
     (if truthy (py_get x ''hash'') then py_get x ''hash''
      else JStr (py_str (py_get_default x ''id'' (JStr [])) @ ''_'' @
                 py_str (py_get_default x ''numeroprocessocommascara'' (JStr []))))"
proof (intro conjI)
  show "remove_duplicates xs =
     map (\<lambda>i. xs ! i)
       (filter (\<lambda>i. \<forall>j<i. dedup_key (xs ! j) \<noteq> dedup_key (xs ! i)) [0..<length xs])"
    unfolding remove_duplicates_def loop_index [of "{}" "[]" xs] by simp
  show "distinct (map dedup_key (remove_duplicates xs))"
    by (rule remove_duplicates_distinct)
  show "dedup_key ` set (remove_duplicates xs) = dedup_key ` set xs"
    using loop_keys [of "{}" "[]" xs] unfolding remove_duplicates_def by simp
  show "dedup_key x =
     (if truthy (py_get x ''hash'') then py_get x ''hash''
      else JStr (py_str (py_get_default x ''id'' (JStr [])) @ ''_'' @
                 py_str (py_get_default x ''numeroprocessocommascara'' (JStr []))))"
    by (simp add: dedup_key_def unique_id_def)
qed

lemma str_int_digit: "str_int 7 = ''7''" "str_int 8 = ''8''"
  by code_simp+

theorem remove_duplicates_stable_witness:
  "remove_duplicates [pub_A, pub_X, pub_A2, pub_Z, pub_X2, pub_Y] = [pub_A, pub_X, pub_Z, pub_Y]"
proof -
  let ?xs = "[pub_A, pub_X, pub_A2, pub_Z, pub_X2, pub_Y]"
  note stab = remove_duplicates_stable [of ?xs]
  have ks: "dedup_key pub_A = JStr ''hA''" "dedup_key pub_A2 = JStr ''hA''"
    "dedup_key pub_X = JStr ''7_0001''" "dedup_key pub_X2 = JStr ''7_0001''"
    "dedup_key pub_Y = JStr ''7_0002''" "dedup_key pub_Z = JStr ''8_0002''"
    unfolding stab [THEN conjunct2, THEN conjunct2, THEN conjunct2]
    by (simp_all add: pub_A_def pub_A2_def pub_X_def pub_X2_def pub_Y_def pub_Z_def py_get_def
          py_get_default_def str_int_digit)
  have idx: "[0..<length ?xs] = [0, 1, 2, 3, 4, 5]"
    by (simp add: upt_rec)
  have two: "(\<forall>j<(2::nat). P j) \<longleftrightarrow> P 0 \<and> P 1" for P
    by (simp add: eval_nat_numeral less_Suc_all)
  have three: "(\<forall>j<(3::nat). P j) \<longleftrightarrow> P 0 \<and> P 1 \<and> P 2" for P
    by (simp add: eval_nat_numeral less_Suc_all)
  have four: "(\<forall>j<(4::nat). P j) \<longleftrightarrow> P 0 \<and> P 1 \<and> P 2 \<and> P 3" for P
    by (simp add: eval_nat_numeral less_Suc_all)
  have five: "(\<forall>j<(5::nat). P j) \<longleftrightarrow> P 0 \<and> P 1 \<and> P 2 \<and> P 3 \<and> P 4" for P
    by (simp add: eval_nat_numeral less_Suc_all)
  show ?thesis
    using stab [THEN conjunct1]
    unfolding idx by (simp add: ks two three four five)
qed

text \<open>
  With the identity of the specification the first occurrence of a key can be lost: a
  publication without a hash is dropped after one whose hash is the string of its pair,
  and after one whose \<^verbatim>\<open>id\<close> is the string of its number.
\<close>

theorem remove_duplicates_collision_counterexample:
  "identity_key pub_H \<noteq> identity_key pub_X \<and>
   remove_duplicates [pub_H, pub_X] = [pub_H] \<and>
   identity_key pub_X \<noteq> identity_key pub_S \<and>
   remove_duplicates [pub_X, pub_S] = [pub_X]"
proof -
  have ks: "dedup_key pub_H = JStr ''7_0001''" "dedup_key pub_X = JStr ''7_0001''"
    "dedup_key pub_S = JStr ''7_0001''"
    by (simp_all add: dedup_key_def unique_id_def pub_H_def pub_X_def pub_S_def py_get_def
          py_get_default_def str_int_digit)
  have "remove_duplicates [pub_H, pub_X] = [pub_H]" "remove_duplicates [pub_X, pub_S] = [pub_X]"
    by (simp_all add: remove_duplicates_def loop_step ks del: remove_duplicates_loop.simps(2))
  moreover have "identity_key pub_H \<noteq> identity_key pub_X" "identity_key pub_X \<noteq> identity_key pub_S"
    by (simp_all add: identity_key_def pub_H_def pub_X_def pub_S_def)
  ultimately show ?thesis by simp
qed

text \<open>
  Claim C8. Deduplication is idempotent: running \<^verbatim>\<open>remove_duplicates\<close> on its own
  output changes nothing.
\<close>

theorem remove_duplicates_idempotent:
  "remove_duplicates (remove_duplicates xs) = remove_duplicates xs"
proof -
  have "distinct (map dedup_key (remove_duplicates xs))"
    by (rule remove_duplicates_distinct)
  then have "remove_duplicates_loop {} [] (remove_duplicates xs) = [] @ remove_duplicates xs"
    by (rule loop_fresh) simp
  then show ?thesis by (simp add: remove_duplicates_def)
qed

section \<open>Properties of rule construction\<close>

text \<open>
  Claim C10. Constructing a rule drops exactly the parameter entries whose value is
  \<^verbatim>\<open>None\<close> or the empty string and keeps every other entry as it is, so no parameter
  of the constructed rule is \<^verbatim>\<open>None\<close> or empty; constructed from
  \<^verbatim>\<open>{"numeroOab": "", "ufOab": "ES"}\<close> the rule has the single parameter
  \<^verbatim>\<open>ufOab\<close>.
\<close>

theorem new_SearchRule_drops_empty:
  "parameters (new_SearchRule nm rt ope en ps) k =
     (if ps k = Some JNull \<or> ps k = Some (JStr []) then None else ps k) \<and>
   parameters (new_SearchRule nm rt ope en ps) k \<noteq> Some JNull \<and>
   parameters (new_SearchRule nm rt ope en ps) k \<noteq> Some (JStr []) \<and>
   parameters
     (new_SearchRule nm rt ope en [''numeroOab'' \<mapsto> JStr [], ''ufOab'' \<mapsto> JStr ''ES'']) =
     [''ufOab'' \<mapsto> JStr ''ES'']"
  by (auto simp: new_SearchRule_def post_init_def fun_eq_iff split: option.splits)


section \<open>Properties of the paginated query\<close>

lemma requests_of_append: "requests_of (xs @ ys) = requests_of xs @ requests_of ys"
  by (induction xs rule: requests_of.induct) simp_all

lemma requests_of_page_events: "requests_of (page_events cb ps pg) = [search_params ps pg]"
  by (simp add: page_events_def)

lemma requests_of_wait_events: "requests_of (wait_events cb) = []"
  by (simp add: wait_events_def)

lemma page_trace_Suc:
  "page_trace cb ps pg (Suc n) =
     page_events cb ps pg @ [Sleep (1 / 2)] @ page_trace cb ps (pg + 1) n"
proof -
  have "[0..<Suc n] = 0 # map Suc [0..<n]"
    by (simp add: upt_conv_Cons map_Suc_upt del: upt_Suc)
  then show ?thesis
    by (simp add: page_trace_def comp_def add.assoc del: upt_Suc)
qed

lemma requests_of_page_trace:
  "requests_of (page_trace cb ps pg n) = map (\<lambda>i. search_params ps (pg + int i)) [0..<n]"
proof (induction n arbitrary: pg)
  case 0
  show ?case by (simp add: page_trace_def)
next
  case (Suc n)
  have "[0..<Suc n] = 0 # map Suc [0..<n]"
    by (simp add: upt_conv_Cons map_Suc_upt del: upt_Suc)
  then show ?case
    by (simp add: page_trace_Suc requests_of_append requests_of_page_events Suc comp_def add.assoc
          del: upt_Suc)
qed

lemma requests_of_retries:
  "requests_of (concat (replicate k (page_events cb ps pg @ wait_events cb))) =
     replicate k (search_params ps pg)"
  by (induction k)
    (simp_all add: requests_of_append requests_of_page_events requests_of_wait_events)

text \<open>One iteration of the loop, by the kind of the answer.\<close>

lemma search_loop_429:
  "search_loop cb ps pg pubs tr (Response 429 b # nt) =
     search_loop cb ps pg pubs (tr @ page_events cb ps pg @ wait_events cb) nt"
  by simp

lemma search_loop_page:
  "p \<noteq> [] \<Longrightarrow> search_loop cb ps pg pubs tr (Response 200 (Dados (Some p)) # nt) =
     search_loop cb ps (pg + 1) (pubs @ p) (tr @ page_events cb ps pg @ [Sleep (1 / 2)]) nt"
  by simp

lemma search_loop_end:
  "d = None \<or> d = Some [] \<Longrightarrow> search_loop cb ps pg pubs tr (Response 200 (Dados d) # nt) =
     (Returns pubs, tr @ page_events cb ps pg, nt)"
  by auto

lemma search_loop_failure:
  "failure r \<Longrightarrow> search_loop cb ps pg pubs tr (r # nt) =
     (Returns pubs, tr @ page_events cb ps pg @ [StError (error_message (rule_name_of ps) r)], nt)"
  by (cases r) (auto split: body.splits)

text \<open>Every answer is of exactly one of four kinds.\<close>

lemma answer_kinds:
  obtains (fail) "failure r"
    | (wait) b where "r = Response 429 b"
    | (last) d where "r = Response 200 (Dados d)" "d = None \<or> d = Some []"
    | (page) p where "r = Response 200 (Dados (Some p))" "p \<noteq> []"
proof (cases r)
  case (Raised e)
  then show ?thesis using fail by simp
next
  case (Response s b)
  show ?thesis
  proof (cases "s = 200")
    case True
    show ?thesis
    proof (cases b)
      case (JsonError e)
      with Response True show ?thesis using fail by simp
    next
      case (Dados d)
      show ?thesis
      proof (cases "d = None \<or> d = Some []")
        case True
        with Response Dados \<open>s = 200\<close> show ?thesis using last by simp
      next
        case False
        then obtain p where "d = Some p" "p \<noteq> []" by auto
        with Response Dados \<open>s = 200\<close> show ?thesis using page by simp
      qed
    qed
  next
    case False
    with Response show ?thesis using fail wait by (cases "s = 429") simp_all
  qed
qed

lemma continues_kinds:
  assumes "continues r"
  obtains (wait) b where "r = Response 429 b"
    | (page) p where "r = Response 200 (Dados (Some p))" "p \<noteq> []"
proof (cases r rule: answer_kinds)
  case fail
  with assms show ?thesis by (cases r) (auto split: body.splits if_splits)
next
  case (wait b)
  then show ?thesis by (rule that(1))
next
  case (last d)
  with assms show ?thesis by auto
next
  case (page p)
  then show ?thesis by (rule that(2))
qed

lemma search_loop_retries:
  "search_loop cb ps pg pubs tr (map (Response 429) bodies @ nt) =
     search_loop cb ps pg pubs
       (tr @ concat (replicate (length bodies) (page_events cb ps pg @ wait_events cb))) nt"
proof (induction bodies arbitrary: tr)
  case Nil
  show ?case by simp
next
  case (Cons b bodies)
  show ?case
    using Cons [of "tr @ page_events cb ps pg @ wait_events cb"]
    by (simp only: list.map append_Cons search_loop_429 length_Cons replicate_Suc concat.simps
          append_assoc)
qed

lemma search_loop_pages:
  "\<forall>p\<in>set pages. p \<noteq> [] \<Longrightarrow>
   search_loop cb ps pg pubs tr (map (\<lambda>p. Response 200 (Dados (Some p))) pages @ nt) =
     search_loop cb ps (pg + int (length pages)) (pubs @ concat pages)
       (tr @ page_trace cb ps pg (length pages)) nt"
proof (induction pages arbitrary: pg pubs tr)
  case Nil
  show ?case by (simp add: page_trace_def)
next
  case (Cons p pages)
  from Cons.prems have p: "p \<noteq> []" and rest: "\<forall>p\<in>set pages. p \<noteq> []" by simp_all
  have "search_loop cb ps pg pubs tr (map (\<lambda>p. Response 200 (Dados (Some p))) (p # pages) @ nt) =
      search_loop cb ps (pg + 1) (pubs @ p) (tr @ page_events cb ps pg @ [Sleep (1 / 2)])
        (map (\<lambda>p. Response 200 (Dados (Some p))) pages @ nt)"
    using p by simp
  also have "\<dots> = search_loop cb ps (pg + 1 + int (length pages)) ((pubs @ p) @ concat pages)
      ((tr @ page_events cb ps pg @ [Sleep (1 / 2)]) @ page_trace cb ps (pg + 1) (length pages)) nt"
    by (rule Cons.IH [OF rest])
  finally have eq:
    "search_loop cb ps pg pubs tr (map (\<lambda>p. Response 200 (Dados (Some p))) (p # pages) @ nt) =
     search_loop cb ps (pg + 1 + int (length pages)) ((pubs @ p) @ concat pages)
      ((tr @ page_events cb ps pg @ [Sleep (1 / 2)]) @ page_trace cb ps (pg + 1) (length pages)) nt" .
  have a: "pg + int (length (p # pages)) = pg + 1 + int (length pages)" by simp
  have b: "pubs @ concat (p # pages) = (pubs @ p) @ concat pages" by simp
  have c: "tr @ page_trace cb ps pg (length (p # pages)) =
      (tr @ page_events cb ps pg @ [Sleep (1 / 2)]) @ page_trace cb ps (pg + 1) (length pages)"
    by (simp add: page_trace_Suc)
  show ?case unfolding a b c by (rule eq)
qed

lemma fetched_429: "fetched (Response 429 b # rs) = fetched rs"
proof (cases b)
  case (JsonError e)
  then show ?thesis by simp
next
  case (Dados d)
  then show ?thesis by (cases d) simp_all
qed

text \<open>Over answers that let it continue, the loop collects the pages and moves on.\<close>

lemma search_loop_continues:
  "\<forall>a\<in>set pre. continues a \<Longrightarrow>
   search_loop cb ps pg pubs tr (pre @ nt) =
     search_loop cb ps (page_after pg pre) (pubs @ fetched pre)
       (tr @ continue_trace cb ps pg pre) nt"
proof (induction pre arbitrary: pg pubs tr)
  case Nil
  show ?case by simp
next
  case (Cons a pre)
  from Cons.prems have a: "continues a" and rest: "\<forall>a\<in>set pre. continues a" by simp_all
  from a show ?case
  proof (cases a rule: continues_kinds)
    case (wait b)
    show ?thesis
      using Cons.IH [OF rest, of pg pubs "tr @ page_events cb ps pg @ wait_events cb"]
      by (simp add: wait fetched_429)
  next
    case (page p)
    show ?thesis
      using Cons.IH [OF rest, of "pg + 1" "pubs @ p" "tr @ page_events cb ps pg @ [Sleep (1 / 2)]"]
        page(2)
      by (simp add: page(1))
  qed
qed

text \<open>
  Claim C4. When the transport answers 200 with the non-empty pages \<open>p1, p2, ...\<close> and
  then with an empty or absent items list, \<^verbatim>\<open>search_with_params\<close> returns exactly the
  concatenation of the pages, in page order. Its requests carry page size 50 and the
  page numbers 1, 2, ... in turn, one per page and one for the empty page; after each
  non-empty page it sleeps 0.5; nothing of the transport after the empty page is
  consumed.
\<close>

theorem search_with_params_pages:
  assumes "\<forall>p\<in>set pages. p \<noteq> []" and "d = None \<or> d = Some []"
  shows "search_with_params cb ps
           (map (\<lambda>p. Response 200 (Dados (Some p))) pages @ Response 200 (Dados d) # nt) =
         (Returns (concat pages),
           page_trace cb ps 1 (length pages) @ page_events cb ps (1 + int (length pages)), nt) \<and>
         requests_of
           (page_trace cb ps 1 (length pages) @ page_events cb ps (1 + int (length pages))) =
         map (\<lambda>i. search_params ps (1 + int i)) [0..<Suc (length pages)] \<and>
         search_params ps n ''itensPorPagina'' = Some (JNum 50) \<and>
         search_params ps n ''pagina'' = Some (JNum n)"
proof (intro conjI)
  show "search_with_params cb ps
           (map (\<lambda>p. Response 200 (Dados (Some p))) pages @ Response 200 (Dados d) # nt) =
         (Returns (concat pages),
           page_trace cb ps 1 (length pages) @ page_events cb ps (1 + int (length pages)), nt)"
    unfolding search_with_params_def search_loop_pages [OF assms(1)]
    using search_loop_end [OF assms(2)] by simp
  show "requests_of
           (page_trace cb ps 1 (length pages) @ page_events cb ps (1 + int (length pages))) =
         map (\<lambda>i. search_params ps (1 + int i)) [0..<Suc (length pages)]"
    by (simp add: requests_of_append requests_of_page_trace requests_of_page_events)
  show "search_params ps n ''itensPorPagina'' = Some (JNum 50)"
    by (simp add: search_params_def)
  show "search_params ps n ''pagina'' = Some (JNum n)"
    by (simp add: search_params_def)
qed

theorem search_with_params_pages_witness:
  "search_with_params False params_ex
     [Response 200 (Dados (Some [Dict pub_A, Dict pub_X])),
      Response 200 (Dados (Some [Dict pub_B])),
      Response 200 (Dados None), Response 200 (Dados (Some [Dict pub_C]))] =
   (Returns [Dict pub_A, Dict pub_X, Dict pub_B],
     [Get (search_params params_ex 1), Sleep (1 / 2), Get (search_params params_ex 2),
      Sleep (1 / 2), Get (search_params params_ex 3)],
     [Response 200 (Dados (Some [Dict pub_C]))])"
proof -
  have ne: "\<forall>p\<in>set [[Dict pub_A, Dict pub_X], [Dict pub_B]]. p \<noteq> []" by simp
  have d: "(None :: entry list option) = None \<or> (None :: entry list option) = Some []" by simp
  have idx: "[0..<2] = [0, Suc 0]" by (simp add: upt_rec)
  show ?thesis
    using search_with_params_pages [OF ne d, of False params_ex
        "[Response 200 (Dados (Some [Dict pub_C]))]" 1]
    by (simp add: page_trace_def page_events_def idx)
qed

text \<open>
  Claim C5. Answers with status 429 leave the page counter and the accumulated
  publications as they are and raise no error. After any number of them in a row, each
  followed by the progress message of the rate limit (when a callback was given) and a
  sleep of 10, the same page is requested again: if the answer then is an empty page the
  search returns the publications it had, and if it is a page with elements the search
  appends them and goes on to the next page. While the transport answers nothing but 429
  the loop keeps asking for the same page.
\<close>

theorem rate_limit_retry:
  "search_loop cb ps pg pubs tr (map (Response 429) bodies @ nt) =
     search_loop cb ps pg pubs
       (tr @ concat (replicate (length bodies) (page_events cb ps pg @ wait_events cb))) nt \<and>
   (d = None \<or> d = Some [] \<longrightarrow>
      search_loop cb ps pg pubs tr (map (Response 429) bodies @ Response 200 (Dados d) # nt) =
        (Returns pubs,
         tr @ concat (replicate (length bodies) (page_events cb ps pg @ wait_events cb)) @
           page_events cb ps pg, nt)) \<and>
   (p \<noteq> [] \<and> (d = None \<or> d = Some []) \<longrightarrow>
      search_loop cb ps pg pubs tr
        (map (Response 429) bodies @ Response 200 (Dados (Some p)) # Response 200 (Dados d) # nt) =
        (Returns (pubs @ p),
         tr @ concat (replicate (length bodies) (page_events cb ps pg @ wait_events cb)) @
           page_events cb ps pg @ [Sleep (1 / 2)] @ page_events cb ps (pg + 1), nt)) \<and>
   search_loop cb ps pg pubs tr (map (Response 429) bodies) =
     (Waiting,
      tr @ concat (replicate (length bodies) (page_events cb ps pg @ wait_events cb)) @
        page_events cb ps pg, []) \<and>
   requests_of (concat (replicate (length bodies) (page_events cb ps pg @ wait_events cb))) =
     replicate (length bodies) (search_params ps pg) \<and>
   wait_events True = [Progress ''Rate limit atingido. Aguardando...'', Sleep 10] \<and>
   wait_events False = [Sleep 10]"
proof (intro conjI impI)
  show "search_loop cb ps pg pubs tr (map (Response 429) bodies @ nt) =
     search_loop cb ps pg pubs
       (tr @ concat (replicate (length bodies) (page_events cb ps pg @ wait_events cb))) nt"
    by (rule search_loop_retries)
  show "search_loop cb ps pg pubs tr (map (Response 429) bodies @ Response 200 (Dados d) # nt) =
        (Returns pubs,
         tr @ concat (replicate (length bodies) (page_events cb ps pg @ wait_events cb)) @
           page_events cb ps pg, nt)"
    if "d = None \<or> d = Some []"
    unfolding search_loop_retries search_loop_end [OF that] by simp
  show "search_loop cb ps pg pubs tr
        (map (Response 429) bodies @ Response 200 (Dados (Some p)) # Response 200 (Dados d) # nt) =
        (Returns (pubs @ p),
         tr @ concat (replicate (length bodies) (page_events cb ps pg @ wait_events cb)) @
           page_events cb ps pg @ [Sleep (1 / 2)] @ page_events cb ps (pg + 1), nt)"
    if "p \<noteq> [] \<and> (d = None \<or> d = Some [])"
  proof -
    from that have p: "p \<noteq> []" and d: "d = None \<or> d = Some []" by simp_all
    show ?thesis
      unfolding search_loop_retries search_loop_page [OF p] search_loop_end [OF d] by simp
  qed
  show "search_loop cb ps pg pubs tr (map (Response 429) bodies) =
     (Waiting,
      tr @ concat (replicate (length bodies) (page_events cb ps pg @ wait_events cb)) @
        page_events cb ps pg, [])"
    using search_loop_retries [of cb ps pg pubs tr bodies "[]"] by simp
  show "requests_of (concat (replicate (length bodies) (page_events cb ps pg @ wait_events cb))) =
     replicate (length bodies) (search_params ps pg)"
    by (rule requests_of_retries)
  show "wait_events True = [Progress ''Rate limit atingido. Aguardando...'', Sleep 10]"
    by (simp add: wait_events_def)
  show "wait_events False = [Sleep 10]"
    by (simp add: wait_events_def)
qed

theorem rate_limit_retry_witness:
  "search_with_params True params_ex
     [Response 429 (Dados None), Response 429 (JsonError ''''),
      Response 200 (Dados (Some [Dict pub_A])), Response 200 (Dados None),
      Response 200 (Dados (Some [Dict pub_C]))] =
   (Returns [Dict pub_A],
     page_events True params_ex 1 @ [Progress ''Rate limit atingido. Aguardando...'', Sleep 10] @
     page_events True params_ex 1 @ [Progress ''Rate limit atingido. Aguardando...'', Sleep 10] @
     page_events True params_ex 1 @ [Sleep (1 / 2)] @ page_events True params_ex 2,
     [Response 200 (Dados (Some [Dict pub_C]))])"
proof -
  have h: "[Dict pub_A] \<noteq> [] \<and> ((None :: entry list option) = None \<or>
      (None :: entry list option) = Some [])"
    by simp
  show ?thesis
    using rate_limit_retry [where p = "[Dict pub_A]" and d = None and cb = True
        and ps = params_ex and pg = 1 and pubs = "[]" and tr = "[]"
        and bodies = "[Dados None, JsonError '''']"
        and nt = "[Response 200 (Dados (Some [Dict pub_C]))]"] h
    by (simp add: search_with_params_def)
qed


section \<open>Properties of rule execution\<close>

lemma rule_R1_fields:
  "enabled rule_R1" "name rule_R1 = ''R1''" "rule_type rule_R1 = INCLUDE" "operator rule_R1 = OR"
  by (simp_all add: rule_R1_def new_SearchRule_def post_init_def)

lemma rule_R2_fields:
  "enabled rule_R2" "name rule_R2 = ''R2''" "rule_type rule_R2 = INCLUDE" "operator rule_R2 = OR"
  by (simp_all add: rule_R2_def new_SearchRule_def post_init_def)

lemma rule_X1_fields:
  "enabled rule_X1" "name rule_X1 = ''X1''" "rule_type rule_X1 = EXCLUDE"
  by (simp_all add: rule_X1_def new_SearchRule_def post_init_def)

lemma rule_A1_fields:
  "enabled rule_A1" "name rule_A1 = ''A1''" "rule_type rule_A1 = INCLUDE" "operator rule_A1 = AND"
  by (simp_all add: rule_A1_def new_SearchRule_def post_init_def)

lemma rule_A2_fields:
  "enabled rule_A2" "name rule_A2 = ''A2''" "rule_type rule_A2 = INCLUDE" "operator rule_A2 = AND"
  by (simp_all add: rule_A2_def new_SearchRule_def post_init_def)

lemma example_fusion_keys:
  "hash_or_id pub_A = JStr ''hA''" "hash_or_id pub_B = JStr ''hB''"
  "hash_or_id pub_C = JStr ''hC''" "hash_or_id pub_A2 = JStr ''hA''"
  "hash_or_id pub_X = JNum 7" "hash_or_id pub_Y = JNum 7"
  by (simp_all add: hash_or_id_def py_get_default_def pub_A_def pub_B_def pub_C_def pub_A2_def
        pub_X_def pub_Y_def)

lemma example_dedup_keys:
  "dedup_key pub_A = JStr ''hA''" "dedup_key pub_B = JStr ''hB''" "dedup_key pub_C = JStr ''hC''"
  "dedup_key pub_X = JStr ''7_0001''" "dedup_key pub_Y = JStr ''7_0002''"
  by (simp_all add: dedup_key_def unique_id_def py_get_def py_get_default_def pub_A_def pub_B_def
        pub_C_def pub_X_def pub_Y_def str_int_digit)

lemma remove_duplicates_fresh:
  "distinct (map dedup_key xs) \<Longrightarrow> remove_duplicates xs = xs"
  using loop_fresh [of xs "{}" "[]"] by (simp add: remove_duplicates_def)

lemma str_int_500: "str_int 500 = ''500''"
  by code_simp

lemma search_with_params_failure:
  assumes "failure r" and "\<forall>a\<in>set pre. continues a"
  shows "search_with_params cb ps (pre @ r # nt) =
     (Returns (fetched pre),
      continue_trace cb ps 1 pre @ page_events cb ps (page_after 1 pre) @
        [StError (error_message (rule_name_of ps) r)], nt)"
  unfolding search_with_params_def search_loop_continues [OF assms(2)]
  using search_loop_failure [OF assms(1)] by simp

lemma error_message_names_rule:
  "failure r \<Longrightarrow> \<exists>pre post. error_message rn r = pre @ rn @ post"
proof (cases r)
  case (Raised e)
  have "error_message rn (Raised e) = (''Erro na '' @ str_requisicao @ '' '') @ rn @ ('': '' @ e)"
    by simp
  with Raised show ?thesis by blast
next
  case (Response s b)
  assume f: "failure r"
  show ?thesis
  proof (cases "s = 200")
    case True
    with f Response obtain e where b: "b = JsonError e" by (cases b) auto
    have "error_message rn (Response 200 (JsonError e)) =
        (''Erro na '' @ str_requisicao @ '' '') @ rn @ ('': '' @ e)"
      by simp
    with Response True b show ?thesis by blast
  next
    case False
    then have "error_message rn (Response s b) = ''Erro na busca '' @ rn @ ('': '' @ str_int s)"
      by simp
    with Response show ?thesis by blast
  qed
qed

lemma rule_name_of_rule_params: "rule_name_of (rule_params rule) = name rule"
  by (simp add: rule_name_of_def rule_params_def py_get_default_def)

lemma run_rules_enabled:
  "enabled rule \<Longrightarrow> search_with_params cb (rule_params rule) nt = (Returns pubs, evs, nt') \<Longrightarrow>
   run_rules cb (rule # rules) acc tr nt =
     (case accumulate rule pubs acc of
        Inl e \<Rightarrow> (Raises e, tr @ rule_events cb rule @ evs, nt')
      | Inr acc' \<Rightarrow> run_rules cb rules acc' (tr @ rule_events cb rule @ evs) nt')"
  by (simp add: Let_def split: sum.splits)

lemma accumulate_first:
  "accumulate rule pubs ([], []) =
     Inr (if rule_type rule = INCLUDE then (pubs, []) else ([], pubs))"
  by (cases "rule_type rule"; cases "operator rule") (simp_all add: accumulate_def)

lemma fetched_Cons_subset: "set (fetched rs) \<subseteq> set (fetched (r # rs))"
proof (cases r)
  case (Raised e)
  then show ?thesis by simp
next
  case (Response s b)
  show ?thesis
  proof (cases b)
    case (JsonError e)
    with Response show ?thesis by simp
  next
    case (Dados d)
    with Response show ?thesis by (cases d) auto
  qed
qed

text \<open>The search itself never raises, and what it returns comes from the pages of the
  transport.\<close>

lemma search_loop_result:
  "search_loop cb ps pg pubs tr nt = (out, tr', nt') \<Longrightarrow>
   (\<forall>e. out \<noteq> Raises e) \<and>
   (\<forall>res. out = Returns res \<longrightarrow> set res \<subseteq> set pubs \<union> set (fetched nt)) \<and>
   set (fetched nt') \<subseteq> set (fetched nt)"
proof (induction nt arbitrary: pg pubs tr)
  case Nil
  then show ?case by auto
next
  case (Cons r nt)
  show ?case
  proof (cases rule: answer_kinds [of r])
    case fail
    from Cons.prems have out: "out = Returns pubs" "nt' = nt"
      unfolding search_loop_failure [OF fail] by simp_all
    have "set (fetched nt) \<subseteq> set (fetched (r # nt))"
      by (rule fetched_Cons_subset)
    with out show ?thesis by auto
  next
    case (wait b)
    from Cons.prems have
      "search_loop cb ps pg pubs (tr @ page_events cb ps pg @ wait_events cb) nt = (out, tr', nt')"
      unfolding wait search_loop_429 .
    from Cons.IH [OF this] show ?thesis
      by (auto simp: wait fetched_429)
  next
    case (last d)
    from Cons.prems have out: "out = Returns pubs" "nt' = nt"
      unfolding last(1) search_loop_end [OF last(2)] by simp_all
    have "set (fetched nt) \<subseteq> set (fetched (r # nt))"
      by (rule fetched_Cons_subset)
    with out show ?thesis by auto
  next
    case (page p)
    from Cons.prems have
      "search_loop cb ps (pg + 1) (pubs @ p) (tr @ page_events cb ps pg @ [Sleep (1 / 2)]) nt =
        (out, tr', nt')"
      unfolding page(1) search_loop_page [OF page(2)] .
    from Cons.IH [OF this] show ?thesis
      by (auto simp: page(1))
  qed
qed

lemma dicts_all:
  "(\<forall>e\<in>set es. is_Dict e) \<Longrightarrow> \<exists>ds. dicts es = Some ds \<and> es = map Dict ds"
proof (induction es)
  case Nil
  show ?case by simp
next
  case (Cons e es)
  then obtain ds where "dicts es = Some ds" "es = map Dict ds" by auto
  moreover from Cons.prems obtain d where "e = Dict d" by (cases e) auto
  ultimately show ?case by simp
qed

lemma accumulate_dicts:
  assumes "\<forall>e\<in>set pubs. is_Dict e" and "\<forall>e\<in>set (fst acc) \<union> set (snd acc). is_Dict e"
  shows "\<exists>acc'. accumulate rule pubs acc = Inr acc' \<and>
           (\<forall>e\<in>set (fst acc') \<union> set (snd acc'). is_Dict e)"
proof -
  obtain inc exc where acc: "acc = (inc, exc)" by (cases acc)
  from assms(2) acc have "\<forall>e\<in>set inc. is_Dict e" by simp
  from dicts_all [OF this] obtain di where di: "dicts inc = Some di" "inc = map Dict di" by blast
  from dicts_all [OF assms(1)] obtain dp where dp: "dicts pubs = Some dp" "pubs = map Dict dp"
    by blast
  show ?thesis
    using assms acc di(1) dp(1)
    by (cases "rule_type rule"; cases "operator rule") (auto simp: accumulate_def Let_def)
qed

lemma run_rules_no_raise:
  assumes "\<forall>e\<in>set (fetched nt). is_Dict e"
    and "\<forall>e\<in>set (fst acc) \<union> set (snd acc). is_Dict e"
    and "run_rules cb rules acc tr nt = (out, tr', nt')"
  shows "(\<forall>e. out \<noteq> Raises e) \<and>
    (\<forall>acc'. out = Returns acc' \<longrightarrow> (\<forall>e\<in>set (fst acc') \<union> set (snd acc'). is_Dict e))"
  using assms
proof (induction rules arbitrary: acc tr nt)
  case Nil
  then show ?case by auto
next
  case (Cons rule rules)
  show ?case
  proof (cases "enabled rule")
    case False
    with Cons.prems(3) have "run_rules cb rules acc tr nt = (out, tr', nt')" by simp
    from Cons.IH [OF Cons.prems(1,2) this] show ?thesis .
  next
    case True
    obtain o1 evs nt1 where s: "search_with_params cb (rule_params rule) nt = (o1, evs, nt1)"
      by (cases "search_with_params cb (rule_params rule) nt") auto
    note res = search_loop_result [OF s [unfolded search_with_params_def]]
    show ?thesis
    proof (cases o1)
      case (Returns pubs)
      with res Cons.prems(1) have pubs: "\<forall>e\<in>set pubs. is_Dict e"
        and nt1: "\<forall>e\<in>set (fetched nt1). is_Dict e"
        by auto
      from accumulate_dicts [OF pubs Cons.prems(2)] obtain acc1 where
        a: "accumulate rule pubs acc = Inr acc1"
        and d: "\<forall>e\<in>set (fst acc1) \<union> set (snd acc1). is_Dict e"
        by blast
      from Cons.prems(3) True s Returns a
      have "run_rules cb rules acc1 (tr @ rule_events cb rule @ evs) nt1 = (out, tr', nt')"
        by simp
      from Cons.IH [OF nt1 d this] show ?thesis .
    next
      case (Raises e)
      with res show ?thesis by simp
    next
      case Waiting
      with Cons.prems(3) True s have "out = Waiting" by simp
      then show ?thesis by simp
    qed
  qed
qed

lemma execute_rules_no_raise:
  assumes "\<forall>e\<in>set (fetched nt). is_Dict e"
  shows "fst (execute_rules cb rules nt) \<noteq> Raises err"
proof -
  obtain out tr' nt' where r: "run_rules cb rules ([], []) [] nt = (out, tr', nt')"
    by (cases "run_rules cb rules ([], []) [] nt") auto
  have init: "\<forall>e\<in>set (fst ([] :: entry list, [] :: entry list)) \<union>
      set (snd ([] :: entry list, [] :: entry list)). is_Dict e"
    by simp
  note nr = run_rules_no_raise [OF assms init r]
  show ?thesis
  proof (cases out)
    case (Returns acc)
    obtain inc exc where acc: "acc = (inc, exc)" by (cases acc)
    from nr Returns acc have "\<forall>e\<in>set inc. is_Dict e" "\<forall>e\<in>set exc. is_Dict e" by auto
    then obtain di de where "dicts inc = Some di" "dicts exc = Some de"
      using dicts_all by blast
    with r Returns acc show ?thesis
      by (simp add: execute_rules_def finish_run_def finish_def Let_def)
  next
    case (Raises e)
    with nr show ?thesis by simp
  next
    case Waiting
    with r show ?thesis by (simp add: execute_rules_def finish_run_def)
  qed
qed

text \<open>A page with an element that is not a dictionary is fetched like any other, and
  \<^verbatim>\<open>execute_rules\<close> raises when it reads the keys.\<close>

lemma execute_rules_not_dict_example:
  "execute_rules False [rule_R1]
     [Response 200 (Dados (Some [NotDict (JStr ''x'')])), Response 200 (Dados None)] =
   (Raises AttributeError,
     [Get (search_params (rule_params rule_R1) 1), Sleep (1 / 2),
      Get (search_params (rule_params rule_R1) 2)], [])"
  by (simp add: execute_rules_def finish_run_def finish_def rule_R1_fields accumulate_def
        rule_events_def page_events_def search_with_params_def)

text \<open>
  Claim C6. An answer that is an exception of the request or of the reading of the body,
  or a status other than 200 and 429, ends the pagination of the rule at once, whatever
  came before it (pages, rate-limit waits): the search returns the publications of the
  pages so far, after one \<^verbatim>\<open>st.error\<close> whose message contains the rule's name, and
  consumes nothing further. Inside \<^verbatim>\<open>execute_rules\<close> the loop over the rules goes on:
  the partial publications enter the accumulators and the remaining rules run on the rest
  of the transport, and their outcome is that of \<^verbatim>\<open>execute_rules\<close>. No such answer
  makes \<^verbatim>\<open>execute_rules\<close> raise: as long as the pages hold dictionaries it raises
  nothing, whatever the answers are.
\<close>

theorem failure_isolated:
  assumes "failure r" and "\<forall>a\<in>set pre. continues a" and "enabled rule"
  shows "search_with_params cb ps (pre @ r # nt) =
     (Returns (fetched pre),
      continue_trace cb ps 1 pre @ page_events cb ps (page_after 1 pre) @
        [StError (error_message (rule_name_of ps) r)], nt) \<and>
   (\<exists>before after. error_message (name rule) r = before @ name rule @ after) \<and>
   run_rules cb (rule # rules) acc tr (pre @ r # nt) =
     (case accumulate rule (fetched pre) acc of
        Inl e \<Rightarrow>
          (Raises e,
           tr @ rule_events cb rule @ continue_trace cb (rule_params rule) 1 pre @
             page_events cb (rule_params rule) (page_after 1 pre) @
             [StError (error_message (name rule) r)], nt)
      | Inr acc' \<Rightarrow>
          run_rules cb rules acc'
            (tr @ rule_events cb rule @ continue_trace cb (rule_params rule) 1 pre @
             page_events cb (rule_params rule) (page_after 1 pre) @
             [StError (error_message (name rule) r)]) nt) \<and>
   execute_rules cb (rule # rules) (pre @ r # nt) =
     finish_run cb
       (run_rules cb rules
          (if rule_type rule = INCLUDE then (fetched pre, []) else ([], fetched pre))
          (rule_events cb rule @ continue_trace cb (rule_params rule) 1 pre @
             page_events cb (rule_params rule) (page_after 1 pre) @
             [StError (error_message (name rule) r)]) nt) \<and>
   ((\<forall>e\<in>set (fetched script). is_Dict e) \<longrightarrow>
      (\<forall>err. fst (execute_rules cb rs script) \<noteq> Raises err))"
proof (intro conjI impI allI)
  note s = search_with_params_failure [OF assms(1,2)]
  show "search_with_params cb ps (pre @ r # nt) =
     (Returns (fetched pre),
      continue_trace cb ps 1 pre @ page_events cb ps (page_after 1 pre) @
        [StError (error_message (rule_name_of ps) r)], nt)"
    by (rule s)
  show "\<exists>before after. error_message (name rule) r = before @ name rule @ after"
    by (rule error_message_names_rule [OF assms(1)])
  show run: "run_rules cb (rule # rules) acc tr (pre @ r # nt) =
     (case accumulate rule (fetched pre) acc of
        Inl e \<Rightarrow>
          (Raises e,
           tr @ rule_events cb rule @ continue_trace cb (rule_params rule) 1 pre @
             page_events cb (rule_params rule) (page_after 1 pre) @
             [StError (error_message (name rule) r)], nt)
      | Inr acc' \<Rightarrow>
          run_rules cb rules acc'
            (tr @ rule_events cb rule @ continue_trace cb (rule_params rule) 1 pre @
             page_events cb (rule_params rule) (page_after 1 pre) @
             [StError (error_message (name rule) r)]) nt)" for acc tr
    using run_rules_enabled [OF assms(3) s [of cb "rule_params rule" nt], of rules acc tr]
    by (simp only: rule_name_of_rule_params)
  show "execute_rules cb (rule # rules) (pre @ r # nt) =
     finish_run cb
       (run_rules cb rules
          (if rule_type rule = INCLUDE then (fetched pre, []) else ([], fetched pre))
          (rule_events cb rule @ continue_trace cb (rule_params rule) 1 pre @
             page_events cb (rule_params rule) (page_after 1 pre) @
             [StError (error_message (name rule) r)]) nt)"
    unfolding execute_rules_def run [of "([], [])" "[]"] accumulate_first by simp
  show "fst (execute_rules cb rs script) \<noteq> Raises err"
    if "\<forall>e\<in>set (fetched script). is_Dict e" for err
    by (rule execute_rules_no_raise [OF that])
qed

theorem failure_isolated_witness:
  "execute_rules False [rule_R1, rule_R2]
     [Response 429 (Dados None), Response 200 (Dados (Some [Dict pub_A])),
      Response 500 (Dados None),
      Response 200 (Dados (Some [Dict pub_B])), Response 200 (Dados (Some []))] =
   (Returns [pub_A, pub_B],
     [Get (search_params (rule_params rule_R1) 1), Sleep 10,
      Get (search_params (rule_params rule_R1) 1), Sleep (1 / 2),
      Get (search_params (rule_params rule_R1) 2), StError ''Erro na busca R1: 500'',
      Get (search_params (rule_params rule_R2) 1), Sleep (1 / 2),
      Get (search_params (rule_params rule_R2) 2)], [])"
proof -
  have f: "failure (Response 500 (Dados None))" by simp
  have c: "\<forall>a\<in>set [Response 429 (Dados None), Response 200 (Dados (Some [Dict pub_A]))].
      continues a"
    by simp
  have dd: "remove_duplicates [pub_A, pub_B] = [pub_A, pub_B]"
    by (rule remove_duplicates_fresh) (simp add: example_dedup_keys)
  note fi = failure_isolated [OF f c rule_R1_fields(1), where cb = False and rules = "[rule_R2]"
      and nt = "[Response 200 (Dados (Some [Dict pub_B])), Response 200 (Dados (Some []))]",
      THEN conjunct2, THEN conjunct2, THEN conjunct2, THEN conjunct1]
  show ?thesis
    using fi
    by (simp add: rule_R1_fields rule_R2_fields accumulate_def rule_events_def page_events_def
          wait_events_def search_with_params_def str_int_500 finish_run_def finish_def dd)
qed


section \<open>The queries of a run\<close>

lemma rule_query_eq:
  "search_params (rule_params rule) n =
     (parameters rule)(''_rule_name'' \<mapsto> JStr (name rule), ''itensPorPagina'' \<mapsto> JNum 50,
       ''pagina'' \<mapsto> JNum n)"
  by (simp add: search_params_def rule_params_def)

text \<open>The requests of a search are for its own parameters, for page numbers that start at
  the page counter and stay or go up by one; there is at least one.\<close>

lemma search_loop_walk:
  "search_loop cb ps pg pubs tr nt = (out, tr', nt') \<Longrightarrow>
   \<exists>ns. requests_of tr' = requests_of tr @ map (search_params ps) ns \<and> ns \<noteq> [] \<and>
        page_walk pg ns"
proof (induction nt arbitrary: pg pubs tr)
  case Nil
  then have "requests_of tr' = requests_of tr @ map (search_params ps) [pg]"
    by (auto simp: requests_of_append requests_of_page_events)
  moreover have "page_walk pg [pg]" by simp
  ultimately show ?case by blast
next
  case (Cons r nt)
  have one: "\<exists>ns. requests_of (tr @ page_events cb ps pg @ es) =
      requests_of tr @ map (search_params ps) ns \<and> ns \<noteq> [] \<and> page_walk pg ns"
    if "requests_of es = []" for es
  proof -
    have "requests_of (tr @ page_events cb ps pg @ es) = requests_of tr @ map (search_params ps) [pg]"
      using that by (simp add: requests_of_append requests_of_page_events)
    moreover have "page_walk pg [pg]" by simp
    ultimately show ?thesis by blast
  qed
  show ?case
  proof (cases rule: answer_kinds [of r])
    case fail
    from Cons.prems have "tr' = tr @ page_events cb ps pg @ [StError (error_message (rule_name_of ps) r)]"
      unfolding search_loop_failure [OF fail] by simp
    with one [of "[StError (error_message (rule_name_of ps) r)]"] show ?thesis by simp
  next
    case (wait b)
    from Cons.prems have
      "search_loop cb ps pg pubs (tr @ page_events cb ps pg @ wait_events cb) nt = (out, tr', nt')"
      unfolding wait search_loop_429 .
    from Cons.IH [OF this] obtain ns where
      ns: "requests_of tr' =
        requests_of (tr @ page_events cb ps pg @ wait_events cb) @ map (search_params ps) ns"
      "page_walk pg ns"
      by blast
    from ns(1) have "requests_of tr' = requests_of tr @ map (search_params ps) (pg # ns)"
      by (simp add: requests_of_append requests_of_page_events requests_of_wait_events)
    moreover from ns(2) have "page_walk pg (pg # ns)" by simp
    ultimately show ?thesis by blast
  next
    case (last d)
    from Cons.prems have "tr' = tr @ page_events cb ps pg @ []"
      unfolding last(1) search_loop_end [OF last(2)] by simp
    with one [of "[]"] show ?thesis by simp
  next
    case (page p)
    from Cons.prems have
      "search_loop cb ps (pg + 1) (pubs @ p) (tr @ page_events cb ps pg @ [Sleep (1 / 2)]) nt =
        (out, tr', nt')"
      unfolding page(1) search_loop_page [OF page(2)] .
    from Cons.IH [OF this] obtain ns where
      ns: "requests_of tr' =
        requests_of (tr @ page_events cb ps pg @ [Sleep (1 / 2)]) @ map (search_params ps) ns"
      "page_walk (pg + 1) ns"
      by blast
    from ns(1) have "requests_of tr' = requests_of tr @ map (search_params ps) (pg # ns)"
      by (simp add: requests_of_append requests_of_page_events)
    moreover from ns(2) have "page_walk pg (pg # ns)" by simp
    ultimately show ?thesis by blast
  qed
qed

lemma requests_of_rule_events: "requests_of (rule_events cb rule) = []"
  by (simp add: rule_events_def)

text \<open>The requests of the loop over the rules: one block for each enabled rule it gets
  to, in the order of the list, each block with the parameters of its own rule.\<close>

lemma run_rules_walk:
  "run_rules cb rules acc tr nt = (out, tr', nt') \<Longrightarrow>
   \<exists>nss. length nss \<le> length (filter enabled rules) \<and>
     requests_of tr' = requests_of tr @
       concat (map (\<lambda>(rule, ns). map (search_params (rule_params rule)) ns)
                 (zip (filter enabled rules) nss)) \<and>
     (\<forall>ns\<in>set nss. ns \<noteq> [] \<and> page_walk 1 ns) \<and>
     (\<forall>acc'. out = Returns acc' \<longrightarrow> length nss = length (filter enabled rules))"
proof (induction rules arbitrary: acc tr nt)
  case Nil
  then have "requests_of tr' = requests_of tr" by simp
  then show ?case by simp
next
  case (Cons rule rules)
  show ?case
  proof (cases "enabled rule")
    case False
    with Cons.prems have "run_rules cb rules acc tr nt = (out, tr', nt')" by simp
    from Cons.IH [OF this] False show ?thesis by simp
  next
    case True
    obtain o1 evs nt1 where s: "search_with_params cb (rule_params rule) nt = (o1, evs, nt1)"
      by (cases "search_with_params cb (rule_params rule) nt") auto
    from search_loop_walk [OF s [unfolded search_with_params_def]] obtain ns1 where
      ns1: "requests_of evs = map (search_params (rule_params rule)) ns1" "ns1 \<noteq> []"
        "page_walk 1 ns1"
      by auto
    have stop: ?thesis if "tr' = tr @ rule_events cb rule @ evs" "\<forall>acc'. out \<noteq> Returns acc'"
    proof -
      have "length [ns1] \<le> length (filter enabled (rule # rules))"
        using True by simp
      moreover have "requests_of tr' = requests_of tr @
          concat (map (\<lambda>(rule, ns). map (search_params (rule_params rule)) ns)
                    (zip (filter enabled (rule # rules)) [ns1]))"
        using True that(1) ns1(1) by (simp add: requests_of_append requests_of_rule_events)
      moreover have "\<forall>ns\<in>set [ns1]. ns \<noteq> [] \<and> page_walk 1 ns"
        using ns1 by simp
      ultimately show ?thesis using that(2) by blast
    qed
    show ?thesis
    proof (cases o1)
      case (Returns pubs)
      show ?thesis
      proof (cases "accumulate rule pubs acc")
        case (Inl e)
        with Cons.prems True s Returns
        have "tr' = tr @ rule_events cb rule @ evs" "out = Raises e" by simp_all
        then show ?thesis by (intro stop) simp_all
      next
        case (Inr acc1)
        with Cons.prems True s Returns
        have "run_rules cb rules acc1 (tr @ rule_events cb rule @ evs) nt1 = (out, tr', nt')"
          by simp
        from Cons.IH [OF this] obtain nss where
          nss: "length nss \<le> length (filter enabled rules)"
            "requests_of tr' = requests_of (tr @ rule_events cb rule @ evs) @
              concat (map (\<lambda>(rule, ns). map (search_params (rule_params rule)) ns)
                        (zip (filter enabled rules) nss))"
            "\<forall>ns\<in>set nss. ns \<noteq> [] \<and> page_walk 1 ns"
            "\<forall>acc'. out = Returns acc' \<longrightarrow> length nss = length (filter enabled rules)"
          by blast
        have "length (ns1 # nss) \<le> length (filter enabled (rule # rules))"
          using True nss(1) by simp
        moreover have "requests_of tr' = requests_of tr @
            concat (map (\<lambda>(rule, ns). map (search_params (rule_params rule)) ns)
                      (zip (filter enabled (rule # rules)) (ns1 # nss)))"
          using True nss(2) ns1(1) by (simp add: requests_of_append requests_of_rule_events)
        moreover have "\<forall>ns\<in>set (ns1 # nss). ns \<noteq> [] \<and> page_walk 1 ns"
          using ns1 nss(3) by simp
        moreover have "\<forall>acc'. out = Returns acc' \<longrightarrow>
            length (ns1 # nss) = length (filter enabled (rule # rules))"
          using True nss(4) by simp
        ultimately show ?thesis by blast
      qed
    next
      case (Raises e)
      with Cons.prems True s
      have "tr' = tr @ rule_events cb rule @ evs" "out = Raises e" by simp_all
      then show ?thesis by (intro stop) simp_all
    next
      case Waiting
      with Cons.prems True s
      have "tr' = tr @ rule_events cb rule @ evs" "out = Waiting" by simp_all
      then show ?thesis by (intro stop) simp_all
    qed
  qed
qed

lemma finish_run_requests:
  "requests_of (fst (snd (finish_run cb (out, tr, nt)))) = requests_of tr"
proof (cases out)
  case (Returns acc)
  obtain res evs where f: "finish cb acc = (res, evs)" by (cases "finish cb acc")
  then have "requests_of evs = []"
    by (cases acc)
      (auto simp: finish_def Let_def split: option.splits if_splits)
  with Returns f show ?thesis by (simp add: finish_run_def requests_of_append)
next
  case (Raises e)
  then show ?thesis by (simp add: finish_run_def)
next
  case Waiting
  then show ?thesis by (simp add: finish_run_def)
qed

lemma finish_run_returns:
  "fst (finish_run cb (out, tr, nt)) = Returns res \<Longrightarrow> \<exists>acc. out = Returns acc"
  by (cases out) (simp_all add: finish_run_def)

text \<open>
  Claim C9, as amended. The requests that \<^verbatim>\<open>execute_rules\<close> sends are, in order, one
  block for each enabled rule of the list, in the order of the list (for every enabled
  rule when the call returns, for the rules reached otherwise). Every request of a
  rule's block carries that rule's own parameters together with three more entries and
  nothing else: \<^verbatim>\<open>_rule_name\<close> with that rule's name, \<^verbatim>\<open>itensPorPagina\<close> with 50 and
  \<^verbatim>\<open>pagina\<close> with the page number; the page numbers of a block start at 1 and each
  is that of the request before or the next.
\<close>

theorem requests_carry_rule_name:
  "\<exists>nss. length nss \<le> length (filter enabled rules) \<and>
     requests_of (fst (snd (execute_rules cb rules nt))) =
       concat (map (\<lambda>(rule, ns).
                 map (\<lambda>n. (parameters rule)(''_rule_name'' \<mapsto> JStr (name rule),
                            ''itensPorPagina'' \<mapsto> JNum 50, ''pagina'' \<mapsto> JNum n)) ns)
               (zip (filter enabled rules) nss)) \<and>
     (\<forall>ns\<in>set nss. ns \<noteq> [] \<and> page_walk 1 ns) \<and>
     (\<forall>res. fst (execute_rules cb rules nt) = Returns res \<longrightarrow>
        length nss = length (filter enabled rules))"
proof -
  obtain out tr nt' where r: "run_rules cb rules ([], []) [] nt = (out, tr, nt')"
    by (cases "run_rules cb rules ([], []) [] nt") auto
  from run_rules_walk [OF r] obtain nss where
    nss: "length nss \<le> length (filter enabled rules)"
      "requests_of tr =
        concat (map (\<lambda>(rule, ns). map (search_params (rule_params rule)) ns)
                  (zip (filter enabled rules) nss))"
      "\<forall>ns\<in>set nss. ns \<noteq> [] \<and> page_walk 1 ns"
      "\<forall>acc'. out = Returns acc' \<longrightarrow> length nss = length (filter enabled rules)"
    by auto
  have q: "search_params (rule_params rule) =
      (\<lambda>n. (parameters rule)(''_rule_name'' \<mapsto> JStr (name rule),
               ''itensPorPagina'' \<mapsto> JNum 50, ''pagina'' \<mapsto> JNum n))" for rule
    by (rule ext) (rule rule_query_eq)
  have "requests_of (fst (snd (execute_rules cb rules nt))) =
       concat (map (\<lambda>(rule, ns).
                 map (\<lambda>n. (parameters rule)(''_rule_name'' \<mapsto> JStr (name rule),
                            ''itensPorPagina'' \<mapsto> JNum 50, ''pagina'' \<mapsto> JNum n)) ns)
               (zip (filter enabled rules) nss))"
    unfolding execute_rules_def r finish_run_requests nss(2) q ..
  moreover have "\<forall>res. fst (execute_rules cb rules nt) = Returns res \<longrightarrow>
        length nss = length (filter enabled rules)"
    unfolding execute_rules_def r using finish_run_returns nss(4) by blast
  ultimately show ?thesis using nss(1,3) by blast
qed

theorem requests_carry_rule_name_witness:
  "execute_rules False [rule_R1, rule_R2]
     [Response 200 (Dados (Some [Dict pub_A])), Response 200 (Dados None),
      Response 200 (Dados None)] =
   (Returns [pub_A],
     [Get ((parameters rule_R1)(''_rule_name'' \<mapsto> JStr ''R1'', ''itensPorPagina'' \<mapsto> JNum 50,
             ''pagina'' \<mapsto> JNum 1)),
      Sleep (1 / 2),
      Get ((parameters rule_R1)(''_rule_name'' \<mapsto> JStr ''R1'', ''itensPorPagina'' \<mapsto> JNum 50,
             ''pagina'' \<mapsto> JNum 2)),
      Get ((parameters rule_R2)(''_rule_name'' \<mapsto> JStr ''R2'', ''itensPorPagina'' \<mapsto> JNum 50,
             ''pagina'' \<mapsto> JNum 1))], []) \<and>
   (\<exists>nss. length nss = 2 \<and>
     [(parameters rule_R1)(''_rule_name'' \<mapsto> JStr ''R1'', ''itensPorPagina'' \<mapsto> JNum 50,
         ''pagina'' \<mapsto> JNum 1),
      (parameters rule_R1)(''_rule_name'' \<mapsto> JStr ''R1'', ''itensPorPagina'' \<mapsto> JNum 50,
         ''pagina'' \<mapsto> JNum 2),
      (parameters rule_R2)(''_rule_name'' \<mapsto> JStr ''R2'', ''itensPorPagina'' \<mapsto> JNum 50,
         ''pagina'' \<mapsto> JNum 1)] =
       concat (map (\<lambda>(rule, ns).
                 map (\<lambda>n. (parameters rule)(''_rule_name'' \<mapsto> JStr (name rule),
                            ''itensPorPagina'' \<mapsto> JNum 50, ''pagina'' \<mapsto> JNum n)) ns)
               (zip [rule_R1, rule_R2] nss)) \<and>
     (\<forall>ns\<in>set nss. ns \<noteq> [] \<and> page_walk 1 ns))"
proof -
  let ?nt = "[Response 200 (Dados (Some [Dict pub_A])), Response 200 (Dados None),
      Response 200 (Dados None)]"
  have one: "remove_duplicates [pub_A] = [pub_A]"
    by (rule remove_duplicates_fresh) simp
  have ex: "execute_rules False [rule_R1, rule_R2] ?nt =
   (Returns [pub_A],
     [Get ((parameters rule_R1)(''_rule_name'' \<mapsto> JStr ''R1'', ''itensPorPagina'' \<mapsto> JNum 50,
             ''pagina'' \<mapsto> JNum 1)),
      Sleep (1 / 2),
      Get ((parameters rule_R1)(''_rule_name'' \<mapsto> JStr ''R1'', ''itensPorPagina'' \<mapsto> JNum 50,
             ''pagina'' \<mapsto> JNum 2)),
      Get ((parameters rule_R2)(''_rule_name'' \<mapsto> JStr ''R2'', ''itensPorPagina'' \<mapsto> JNum 50,
             ''pagina'' \<mapsto> JNum 1))], [])"
    by (simp add: execute_rules_def finish_run_def finish_def rule_R1_fields rule_R2_fields
          accumulate_def rule_events_def page_events_def search_with_params_def one
          rule_query_eq)
  have en: "filter enabled [rule_R1, rule_R2] = [rule_R1, rule_R2]"
    by (simp add: rule_R1_fields rule_R2_fields)
  from requests_carry_rule_name [of "[rule_R1, rule_R2]" False ?nt]
  obtain nss where
    "length nss \<le> length [rule_R1, rule_R2]"
    "requests_of (fst (snd (execute_rules False [rule_R1, rule_R2] ?nt))) =
       concat (map (\<lambda>(rule, ns).
                 map (\<lambda>n. (parameters rule)(''_rule_name'' \<mapsto> JStr (name rule),
                            ''itensPorPagina'' \<mapsto> JNum 50, ''pagina'' \<mapsto> JNum n)) ns)
               (zip [rule_R1, rule_R2] nss))"
    "\<forall>ns\<in>set nss. ns \<noteq> [] \<and> page_walk 1 ns"
    "\<forall>res. fst (execute_rules False [rule_R1, rule_R2] ?nt) = Returns res \<longrightarrow>
        length nss = length [rule_R1, rule_R2]"
    unfolding en by blast
  then have "length nss = 2 \<and>
     [(parameters rule_R1)(''_rule_name'' \<mapsto> JStr ''R1'', ''itensPorPagina'' \<mapsto> JNum 50,
         ''pagina'' \<mapsto> JNum 1),
      (parameters rule_R1)(''_rule_name'' \<mapsto> JStr ''R1'', ''itensPorPagina'' \<mapsto> JNum 50,
         ''pagina'' \<mapsto> JNum 2),
      (parameters rule_R2)(''_rule_name'' \<mapsto> JStr ''R2'', ''itensPorPagina'' \<mapsto> JNum 50,
         ''pagina'' \<mapsto> JNum 1)] =
       concat (map (\<lambda>(rule, ns).
                 map (\<lambda>n. (parameters rule)(''_rule_name'' \<mapsto> JStr (name rule),
                            ''itensPorPagina'' \<mapsto> JNum 50, ''pagina'' \<mapsto> JNum n)) ns)
               (zip [rule_R1, rule_R2] nss)) \<and>
     (\<forall>ns\<in>set nss. ns \<noteq> [] \<and> page_walk 1 ns)"
    unfolding ex by simp
  with ex show ?thesis by blast
qed

text \<open>
  The query of a rule is not its parameters plus page size and page number only: it has
  the entry \<^verbatim>\<open>_rule_name\<close>, which the rule's parameters do not have.
\<close>

theorem query_has_rule_name_counterexample:
  "execute_rules False [rule_R1] [Response 200 (Dados None)] =
     (Returns [], [Get (search_params (rule_params rule_R1) 1)], []) \<and>
   search_params (rule_params rule_R1) 1 ''_rule_name'' = Some (JStr ''R1'') \<and>
   parameters rule_R1 ''_rule_name'' = None \<and>
   search_params (rule_params rule_R1) 1 \<noteq>
     (parameters rule_R1)(''itensPorPagina'' \<mapsto> JNum 50, ''pagina'' \<mapsto> JNum 1)"
proof -
  have ex: "execute_rules False [rule_R1] [Response 200 (Dados None)] =
     (Returns [], [Get (search_params (rule_params rule_R1) 1)], [])"
    by (simp add: execute_rules_def finish_run_def finish_def rule_R1_fields
          search_with_params_def page_events_def accumulate_def rule_events_def
          remove_duplicates_def)
  have a: "search_params (rule_params rule_R1) 1 ''_rule_name'' = Some (JStr ''R1'')"
    by (simp add: search_params_def rule_params_def rule_R1_fields)
  have b: "parameters rule_R1 ''_rule_name'' = None"
    by (simp add: rule_R1_def new_SearchRule_def post_init_def)
  have c: "((parameters rule_R1)(''itensPorPagina'' \<mapsto> JNum 50, ''pagina'' \<mapsto> JNum 1))
      ''_rule_name'' = None"
    using b by simp
  from a c have "search_params (rule_params rule_R1) 1 \<noteq>
     (parameters rule_R1)(''itensPorPagina'' \<mapsto> JNum 50, ''pagina'' \<mapsto> JNum 1)"
    by (metis option.distinct(1))
  with ex a b show ?thesis by simp
qed


section \<open>Where the code leaves the specification\<close>

lemma example_identity_keys:
  "identity_key pub_A = HashKey (JStr ''hA'')"
  "identity_key pub_X = PairKey (Some (JNum 7)) (Some (JStr ''0001''))"
  "identity_key pub_Y = PairKey (Some (JNum 7)) (Some (JStr ''0002''))"
  by (simp_all add: identity_key_def pub_A_def pub_X_def pub_Y_def)

lemma remove_duplicates_single: "remove_duplicates [x] = [x]"
  by (rule remove_duplicates_fresh) simp

text \<open>
  Claim C1. Two publications without a hash, with the same \<^verbatim>\<open>id\<close> and different case
  numbers, have different identities: \<^verbatim>\<open>remove_duplicates\<close> keeps both. The
  And-intersection and the exclusion filter of \<^verbatim>\<open>execute_rules\<close> take them for the
  same publication: of two Include/And rules that fetch one each, the first rule's
  publication is returned, and an exclusion by the one removes the other.
\<close>

theorem identity_key_divergence:
  "identity_key pub_X \<noteq> identity_key pub_Y \<and>
   remove_duplicates [pub_X, pub_Y] = [pub_X, pub_Y] \<and>
   hash_or_id pub_X = hash_or_id pub_Y \<and>
   accumulate rule_A2 [Dict pub_Y] ([Dict pub_X], []) = Inr ([Dict pub_X], []) \<and>
   apply_exclusions [pub_X] [pub_Y] = [] \<and>
   execute_rules False [rule_A1, rule_A2]
     [Response 200 (Dados (Some [Dict pub_X])), Response 200 (Dados None),
      Response 200 (Dados (Some [Dict pub_Y])), Response 200 (Dados None)] =
   (Returns [pub_X],
     [Get (search_params (rule_params rule_A1) 1), Sleep (1 / 2),
      Get (search_params (rule_params rule_A1) 2),
      Get (search_params (rule_params rule_A2) 1), Sleep (1 / 2),
      Get (search_params (rule_params rule_A2) 2)], [])"
proof -
  have dd: "remove_duplicates [pub_X, pub_Y] = [pub_X, pub_Y]"
    by (rule remove_duplicates_fresh) (simp add: example_dedup_keys)
  have acc: "accumulate rule_A2 [Dict pub_Y] ([Dict pub_X], []) = Inr ([Dict pub_X], [])"
    by (simp add: accumulate_def rule_A2_fields example_fusion_keys)
  have ex: "execute_rules False [rule_A1, rule_A2]
     [Response 200 (Dados (Some [Dict pub_X])), Response 200 (Dados None),
      Response 200 (Dados (Some [Dict pub_Y])), Response 200 (Dados None)] =
   (Returns [pub_X],
     [Get (search_params (rule_params rule_A1) 1), Sleep (1 / 2),
      Get (search_params (rule_params rule_A1) 2),
      Get (search_params (rule_params rule_A2) 1), Sleep (1 / 2),
      Get (search_params (rule_params rule_A2) 2)], [])"
    by (simp add: execute_rules_def finish_run_def finish_def rule_A1_fields rule_A2_fields
          accumulate_def rule_events_def page_events_def search_with_params_def
          example_fusion_keys remove_duplicates_single)
  show ?thesis
    using dd acc ex
    by (simp add: example_identity_keys example_fusion_keys apply_exclusions_def)
qed

text \<open>
  Claim C2. One Include/Or rule fetches a publication without a hash and one Exclude rule
  fetches another with the same \<^verbatim>\<open>id\<close> and a different case number. The identity of
  the first is not among the identities of the exclusions, so by the claim it stays;
  \<^verbatim>\<open>execute_rules\<close> returns nothing.
\<close>

theorem exclusion_divergence:
  "execute_rules False [rule_R1, rule_X1]
     [Response 200 (Dados (Some [Dict pub_X])), Response 200 (Dados None),
      Response 200 (Dados (Some [Dict pub_Y])), Response 200 (Dados None)] =
   (Returns [],
     [Get (search_params (rule_params rule_R1) 1), Sleep (1 / 2),
      Get (search_params (rule_params rule_R1) 2),
      Get (search_params (rule_params rule_X1) 1), Sleep (1 / 2),
      Get (search_params (rule_params rule_X1) 2)], []) \<and>
   run_rules False [rule_R1, rule_X1] ([], []) []
     [Response 200 (Dados (Some [Dict pub_X])), Response 200 (Dados None),
      Response 200 (Dados (Some [Dict pub_Y])), Response 200 (Dados None)] =
   (Returns ([Dict pub_X], [Dict pub_Y]),
     [Get (search_params (rule_params rule_R1) 1), Sleep (1 / 2),
      Get (search_params (rule_params rule_R1) 2),
      Get (search_params (rule_params rule_X1) 1), Sleep (1 / 2),
      Get (search_params (rule_params rule_X1) 2)], []) \<and>
   filter (\<lambda>pub. identity_key pub \<notin> identity_key ` set [pub_Y]) (remove_duplicates [pub_X]) =
     [pub_X]"
proof -
  have run: "run_rules False [rule_R1, rule_X1] ([], []) []
     [Response 200 (Dados (Some [Dict pub_X])), Response 200 (Dados None),
      Response 200 (Dados (Some [Dict pub_Y])), Response 200 (Dados None)] =
   (Returns ([Dict pub_X], [Dict pub_Y]),
     [Get (search_params (rule_params rule_R1) 1), Sleep (1 / 2),
      Get (search_params (rule_params rule_R1) 2),
      Get (search_params (rule_params rule_X1) 1), Sleep (1 / 2),
      Get (search_params (rule_params rule_X1) 2)], [])"
    by (simp add: rule_R1_fields rule_X1_fields accumulate_def rule_events_def page_events_def
          search_with_params_def)
  then have ex: "execute_rules False [rule_R1, rule_X1]
     [Response 200 (Dados (Some [Dict pub_X])), Response 200 (Dados None),
      Response 200 (Dados (Some [Dict pub_Y])), Response 200 (Dados None)] =
   (Returns [],
     [Get (search_params (rule_params rule_R1) 1), Sleep (1 / 2),
      Get (search_params (rule_params rule_R1) 2),
      Get (search_params (rule_params rule_X1) 1), Sleep (1 / 2),
      Get (search_params (rule_params rule_X1) 2)], [])"
    by (simp add: execute_rules_def finish_run_def finish_def remove_duplicates_single
          apply_exclusions_def example_fusion_keys)
  from run ex show ?thesis
    by (simp add: remove_duplicates_single example_identity_keys)
qed

text \<open>
  Claim C3. The first of two Include/And rules fetches nothing and the second fetches one
  publication. The intersection of the two results is empty; \<^verbatim>\<open>execute_rules\<close>
  returns the publication of the second rule.
\<close>

theorem and_rule_empty_first_divergence:
  "search_with_params False (rule_params rule_A1)
     [Response 200 (Dados None), Response 200 (Dados (Some [Dict pub_A])),
      Response 200 (Dados None)] =
     (Returns [], [Get (search_params (rule_params rule_A1) 1)],
       [Response 200 (Dados (Some [Dict pub_A])), Response 200 (Dados None)]) \<and>
   search_with_params False (rule_params rule_A2)
     [Response 200 (Dados (Some [Dict pub_A])), Response 200 (Dados None)] =
     (Returns [Dict pub_A], [Get (search_params (rule_params rule_A2) 1), Sleep (1 / 2),
       Get (search_params (rule_params rule_A2) 2)], []) \<and>
   execute_rules False [rule_A1, rule_A2]
     [Response 200 (Dados None), Response 200 (Dados (Some [Dict pub_A])),
      Response 200 (Dados None)] =
     (Returns [pub_A],
       [Get (search_params (rule_params rule_A1) 1),
        Get (search_params (rule_params rule_A2) 1), Sleep (1 / 2),
        Get (search_params (rule_params rule_A2) 2)], []) \<and>
   identity_key ` set [] \<inter> identity_key ` set [pub_A] = {} \<and>
   hash_or_id ` set [] \<inter> hash_or_id ` set [pub_A] = {}"
  by (simp add: search_with_params_def page_events_def rule_A1_fields rule_A2_fields
        accumulate_def rule_events_def execute_rules_def finish_run_def finish_def
        remove_duplicates_single)


end
